theory Spec2Isabelle
  imports Main "HOL-Library.Product_Lexorder"
begin

section \<open>The cursor of \<^verbatim>\<open>src/classes/cursor.js\<close>\<close>

subsection \<open>Data the cursor reads\<close>

text \<open>
  A tree node exposes \<^verbatim>\<open>node.item.key\<close> and \<^verbatim>\<open>node.item.value\<close> to the cursor.
  The field \<^verbatim>\<open>value\<close> is written \<open>value'\<close> (the plain word is reserved).
\<close>

record ('k, 'v) item =
  key :: 'k
  value' :: 'v

text \<open>
  Modelled from the spec: class \<^verbatim>\<open>Node\<close> (\<^verbatim>\<open>./node.js\<close>) is imported by the cursor but
  is not among the sources. The spec's data model calls a node "an opaque tree node
  holding one Entry plus whatever parent/child/balance metadata the tree implementation
  needs", "an opaque handle with identity". A node is its entry together with a handle
  \<open>'h\<close> that carries the identity and the links.
\<close>

record ('k, 'v, 'h) node =
  item :: "('k, 'v) item"
  handle :: 'h

text \<open>
  The tree object, as the cursor consumes it: the property \<^verbatim>\<open>root\<close> and the six methods
  the cursor calls on \<^verbatim>\<open>this.tree\<close>. A JavaScript object with methods is a record of
  functions. Every method may answer \<^verbatim>\<open>null\<close>/\<^verbatim>\<open>undefined\<close> (\<open>None\<close>): the cursor tests
  each answer for truthiness, and a node object is always truthy.

  Modelled from the spec: the synthetic search node \<^verbatim>\<open>new Node(interval)\<close> handed to the
  two nearest searches is "an ephemeral synthetic node/interval used only for the first
  positioning search"; it carries nothing but the interval and is represented by that key.
\<close>

record ('k, 'v, 'h) interval_tree =
  root :: "('k, 'v, 'h) node option"
  tree_successor :: "('k, 'v, 'h) node \<Rightarrow> ('k, 'v, 'h) node option"
  tree_precursor :: "('k, 'v, 'h) node \<Rightarrow> ('k, 'v, 'h) node option"
  tree_search_nearest_forward ::
    "('k, 'v, 'h) node option \<Rightarrow> 'k \<Rightarrow> ('k, 'v, 'h) node option"
  tree_search_nearest_backward ::
    "('k, 'v, 'h) node option \<Rightarrow> 'k \<Rightarrow> ('k, 'v, 'h) node option"
  local_minimum :: "('k, 'v, 'h) node \<Rightarrow> ('k, 'v, 'h) node option"
  local_maximum :: "('k, 'v, 'h) node \<Rightarrow> ('k, 'v, 'h) node option"

subsection \<open>The cursor object\<close>

text \<open>
  The four fields the constructor sets. \<^verbatim>\<open>outputMapperFn\<close> is stored as it was passed; the
  constructor's documentation calls it optional, so it may be missing (\<open>None\<close>). What it
  returns is any JavaScript value, \<^verbatim>\<open>null\<close> included: \<open>'r option\<close>, with \<open>None\<close> for
  \<^verbatim>\<open>null\<close>.
\<close>

record ('k, 'v, 'h, 'r) cursor =
  tree :: "('k, 'v, 'h) interval_tree"
  search_node :: "'k option"
  outputMapperFn :: "('v \<Rightarrow> 'k \<Rightarrow> 'r option) option"
  current_node :: "('k, 'v, 'h) node option"

definition Cursor ::
  "('k, 'v, 'h) interval_tree \<Rightarrow> 'k option \<Rightarrow> ('v \<Rightarrow> 'k \<Rightarrow> 'r option) option
    \<Rightarrow> ('k, 'v, 'h, 'r) cursor" where
  "Cursor t interval f =
     \<lparr>tree = t,
      search_node = (case interval of Some i \<Rightarrow> Some i | None \<Rightarrow> None),
      outputMapperFn = f,
      current_node = None\<rparr>"

subsection \<open>What one call does\<close>

text \<open>
  Calling a value that is not a function throws a \<^verbatim>\<open>TypeError\<close>; nothing else in the
  cursor can throw. A call returns a value (\<open>Inr\<close>, with \<open>None\<close> for \<^verbatim>\<open>null\<close>) or throws
  (\<open>Inl\<close>).
\<close>

datatype error = TypeError

text \<open>
  The calls a cursor method makes to its collaborators, in order: the tree's methods with
  their arguments, and the output mapper with its two arguments.
\<close>

datatype ('k, 'v, 'h) call =
    Call_tree_successor "('k, 'v, 'h) node"
  | Call_tree_precursor "('k, 'v, 'h) node"
  | Call_tree_search_nearest_forward "('k, 'v, 'h) node option" 'k
  | Call_tree_search_nearest_backward "('k, 'v, 'h) node option" 'k
  | Call_local_minimum "('k, 'v, 'h) node"
  | Call_local_maximum "('k, 'v, 'h) node"
  | Call_outputMapperFn 'v 'k

fun is_tree_call :: "('k, 'v, 'h) call \<Rightarrow> bool" where
  "is_tree_call (Call_outputMapperFn v k) = False"
| "is_tree_call _ = True"

fun is_search_call :: "('k, 'v, 'h) call \<Rightarrow> bool" where
  "is_search_call (Call_tree_search_nearest_forward r s) = True"
| "is_search_call (Call_tree_search_nearest_backward r s) = True"
| "is_search_call _ = False"

text \<open>
  The result of one call of \<^verbatim>\<open>next()\<close> or \<^verbatim>\<open>prev()\<close>: what the caller gets, the calls
  made on the way, and the cursor afterwards (its fields are assigned before the mapper
  runs, so they are updated also when the call throws).
\<close>

record ('k, 'v, 'h, 'r) step =
  outcome :: "error + 'r option"
  calls :: "('k, 'v, 'h) call list"
  state :: "('k, 'v, 'h, 'r) cursor"

text \<open>
  Lines 42-45 and 67-70, the same in both methods: store the node found as the current
  node, then return the mapped entry, or \<^verbatim>\<open>null\<close> when no node was found.
\<close>

definition deliver ::
  "('k, 'v, 'h) node option \<Rightarrow> ('k, 'v, 'h) call list \<Rightarrow> ('k, 'v, 'h, 'r) cursor
    \<Rightarrow> ('k, 'v, 'h, 'r) step" where
  "deliver found cs c =
     (let c' = c\<lparr>current_node := found\<rparr> in
      case found of
        Some n \<Rightarrow>
          (case outputMapperFn c' of
             Some f \<Rightarrow>
               \<lparr>outcome = Inr (f (value' (item n)) (key (item n))),
                calls = cs @ [Call_outputMapperFn (value' (item n)) (key (item n))],
                state = c'\<rparr>
           | None \<Rightarrow> \<lparr>outcome = Inl TypeError, calls = cs, state = c'\<rparr>)
      | None \<Rightarrow> \<lparr>outcome = Inr None, calls = cs, state = c'\<rparr>)"

text \<open>\<^verbatim>\<open>Cursor.next\<close>, lines 28-46.\<close>

definition cursor_next :: "('k, 'v, 'h, 'r) cursor \<Rightarrow> ('k, 'v, 'h, 'r) step" where
  "cursor_next c =
     (case current_node c of
        Some n \<Rightarrow> deliver (tree_successor (tree c) n) [Call_tree_successor n] c
      | None \<Rightarrow>
          (case search_node c of
             Some s \<Rightarrow>
               deliver (tree_search_nearest_forward (tree c) (root (tree c)) s)
                 [Call_tree_search_nearest_forward (root (tree c)) s]
                 (c\<lparr>search_node := None\<rparr>)
           | None \<Rightarrow>
               (case root (tree c) of
                  Some r \<Rightarrow> deliver (local_minimum (tree c) r) [Call_local_minimum r] c
                | None \<Rightarrow> deliver None [] c)))"

text \<open>\<^verbatim>\<open>Cursor.prev\<close>, lines 53-71.\<close>

definition cursor_prev :: "('k, 'v, 'h, 'r) cursor \<Rightarrow> ('k, 'v, 'h, 'r) step" where
  "cursor_prev c =
     (case current_node c of
        Some n \<Rightarrow> deliver (tree_precursor (tree c) n) [Call_tree_precursor n] c
      | None \<Rightarrow>
          (case search_node c of
             Some s \<Rightarrow>
               deliver (tree_search_nearest_backward (tree c) (root (tree c)) s)
                 [Call_tree_search_nearest_backward (root (tree c)) s]
                 (c\<lparr>search_node := None\<rparr>)
           | None \<Rightarrow>
               (case root (tree c) of
                  Some r \<Rightarrow> deliver (local_maximum (tree c) r) [Call_local_maximum r] c
                | None \<Rightarrow> deliver None [] c)))"

subsection \<open>Sequences of calls\<close>

datatype cursor_op = Next | Prev

fun cursor_call :: "cursor_op \<Rightarrow> ('k, 'v, 'h, 'r) cursor \<Rightarrow> ('k, 'v, 'h, 'r) step" where
  "cursor_call Next c = cursor_next c"
| "cursor_call Prev c = cursor_prev c"

text \<open>The steps of a sequence of calls on one cursor, each on the state the last left.\<close>

fun run_steps ::
  "cursor_op list \<Rightarrow> ('k, 'v, 'h, 'r) cursor \<Rightarrow> ('k, 'v, 'h, 'r) step list" where
  "run_steps [] c = []"
| "run_steps (x # xs) c = cursor_call x c # run_steps xs (state (cursor_call x c))"

fun run_state ::
  "cursor_op list \<Rightarrow> ('k, 'v, 'h, 'r) cursor \<Rightarrow> ('k, 'v, 'h, 'r) cursor" where
  "run_state [] c = c"
| "run_state (x # xs) c = run_state xs (state (cursor_call x c))"

fun mapper_calls :: "('k, 'v, 'h) call list \<Rightarrow> ('v \<times> 'k) list" where
  "mapper_calls [] = []"
| "mapper_calls (Call_outputMapperFn v k # cs) = (v, k) # mapper_calls cs"
| "mapper_calls (c # cs) = mapper_calls cs"

section \<open>The tree the cursor walks\<close>

text \<open>
  Modelled from the spec: class \<^verbatim>\<open>IntervalTree\<close> is not among the sources. The spec
  describes it as "a balanced binary search tree keyed by intervals" whose traversal
  primitives are "standard augmented-BST operations". The tree is a binary tree of
  entries; \<open>Nil_node\<close> is the empty subtree. Balance and the interval augmentation play no
  part in ordered traversal and are left out.
\<close>

datatype ('k, 'v) bst =
    Nil_node
  | Tree_node "('k, 'v) bst" "('k, 'v) item" "('k, 'v) bst"

text \<open>
  Modelled from the spec: a node handle. The sources have no node class; the spec asks for
  "an opaque handle with identity" from which the tree finds parent and children. A handle
  is the path of turns from the root to the node, so that the parent of a node is the path
  without its last turn.
\<close>

datatype dir = Left | Right

type_synonym path = "dir list"

text \<open>
  Modelled from the spec: the entries of a tree from left to right ("ascending sorted
  order" of the intervals), and the handles of their nodes in the same order.
\<close>

fun inorder :: "('k, 'v) bst \<Rightarrow> ('k, 'v) item list" where
  "inorder Nil_node = []"
| "inorder (Tree_node l x r) = inorder l @ x # inorder r"

fun inorder_paths :: "('k, 'v) bst \<Rightarrow> path list" where
  "inorder_paths Nil_node = []"
| "inorder_paths (Tree_node l x r) =
     map ((#) Left) (inorder_paths l) @ [] # map ((#) Right) (inorder_paths r)"

text \<open>
  Modelled from the spec: the search-tree order of the keys ("a binary search tree keyed
  by intervals", traversed "in strictly ascending key order"): every key of the left
  subtree is below the node's key and every key of the right subtree is above it.
\<close>

fun search_tree :: "('k::linorder, 'v) bst \<Rightarrow> bool" where
  "search_tree Nil_node = True"
| "search_tree (Tree_node l x r) =
     (search_tree l \<and> search_tree r \<and>
      list_all (\<lambda>y. key y < key x) (inorder l) \<and>
      list_all (\<lambda>y. key x < key y) (inorder r))"

text \<open>
  Modelled from the spec: following a handle from the root. The node a handle stands for
  holds the entry at the end of the path ("a Node exposes at least \<^verbatim>\<open>entry.key\<close> and
  \<^verbatim>\<open>entry.value\<close>"); a path that leaves the tree stands for no node.
\<close>

fun subtree :: "('k, 'v) bst \<Rightarrow> path \<Rightarrow> ('k, 'v) bst" where
  "subtree t [] = t"
| "subtree Nil_node (d # p) = Nil_node"
| "subtree (Tree_node l x r) (Left # p) = subtree l p"
| "subtree (Tree_node l x r) (Right # p) = subtree r p"

definition entry_at :: "('k, 'v) bst \<Rightarrow> path \<Rightarrow> ('k, 'v) item option" where
  "entry_at t p = (case subtree t p of Nil_node \<Rightarrow> None | Tree_node l x r \<Rightarrow> Some x)"

definition node_at :: "('k, 'v) bst \<Rightarrow> path \<Rightarrow> ('k, 'v, path) node option" where
  "node_at t p =
     (case subtree t p of
        Nil_node \<Rightarrow> None
      | Tree_node l x r \<Rightarrow> Some \<lparr>item = x, handle = p\<rparr>)"

text \<open>
  Modelled from the spec: \<^verbatim>\<open>minimum_of(subtreeRoot)\<close> and \<^verbatim>\<open>maximum_of(subtreeRoot)\<close>, the
  "minimum-node-of-subtree" and "maximum-node-of-subtree": follow left (right) children
  from the subtree's root as long as there is one.
\<close>

fun minimum_path :: "('k, 'v) bst \<Rightarrow> path" where
  "minimum_path (Tree_node (Tree_node ll y lr) x r) = Left # minimum_path (Tree_node ll y lr)"
| "minimum_path t = []"

fun maximum_path :: "('k, 'v) bst \<Rightarrow> path" where
  "maximum_path (Tree_node l x (Tree_node rl y rr)) = Right # maximum_path (Tree_node rl y rr)"
| "maximum_path t = []"

text \<open>
  Modelled from the spec: \<^verbatim>\<open>successor_of(node)\<close> and \<^verbatim>\<open>predecessor_of(node)\<close>, "the
  next/previous node in ascending key order relative to a given node, found via standard
  BST traversal using parent links": the minimum of the right subtree when there is one,
  otherwise the nearest ancestor that has the node in its left subtree (and the mirror).
\<close>

fun successor_path :: "('k, 'v) bst \<Rightarrow> path \<Rightarrow> path option" where
  "successor_path Nil_node p = None"
| "successor_path (Tree_node l x r) [] =
     (case r of Nil_node \<Rightarrow> None | Tree_node rl y rr \<Rightarrow> Some (Right # minimum_path r))"
| "successor_path (Tree_node l x r) (Left # p) =
     (case successor_path l p of Some q \<Rightarrow> Some (Left # q) | None \<Rightarrow> Some [])"
| "successor_path (Tree_node l x r) (Right # p) =
     (case successor_path r p of Some q \<Rightarrow> Some (Right # q) | None \<Rightarrow> None)"

fun precursor_path :: "('k, 'v) bst \<Rightarrow> path \<Rightarrow> path option" where
  "precursor_path Nil_node p = None"
| "precursor_path (Tree_node l x r) [] =
     (case l of Nil_node \<Rightarrow> None | Tree_node ll y lr \<Rightarrow> Some (Left # maximum_path l))"
| "precursor_path (Tree_node l x r) (Right # p) =
     (case precursor_path r p of Some q \<Rightarrow> Some (Right # q) | None \<Rightarrow> Some [])"
| "precursor_path (Tree_node l x r) (Left # p) =
     (case precursor_path l p of Some q \<Rightarrow> Some (Left # q) | None \<Rightarrow> None)"

text \<open>
  Modelled from the spec: \<^verbatim>\<open>nearest_at_or_after(root, key)\<close> and
  \<^verbatim>\<open>nearest_at_or_before(root, key)\<close>, "a search that returns the closest existing node
  whose key is \<open>\<ge>\<close> (resp. \<open>\<le>\<close>) a given target key": descend from the root, keeping the
  last node that qualified.
\<close>

fun nearest_forward_path :: "('k::linorder, 'v) bst \<Rightarrow> 'k \<Rightarrow> path option" where
  "nearest_forward_path Nil_node s = None"
| "nearest_forward_path (Tree_node l x r) s =
     (if key x < s then
        (case nearest_forward_path r s of Some q \<Rightarrow> Some (Right # q) | None \<Rightarrow> None)
      else
        (case nearest_forward_path l s of Some q \<Rightarrow> Some (Left # q) | None \<Rightarrow> Some []))"

fun nearest_backward_path :: "('k::linorder, 'v) bst \<Rightarrow> 'k \<Rightarrow> path option" where
  "nearest_backward_path Nil_node s = None"
| "nearest_backward_path (Tree_node l x r) s =
     (if s < key x then
        (case nearest_backward_path l s of Some q \<Rightarrow> Some (Left # q) | None \<Rightarrow> None)
      else
        (case nearest_backward_path r s of Some q \<Rightarrow> Some (Right # q) | None \<Rightarrow> Some []))"

text \<open>
  Modelled from the spec: the tree object of section 6 of the spec, built over a tree of
  entries: \<^verbatim>\<open>root\<close> is "the current root node of the tree, or none if empty", and each
  method answers a node of the tree or none.
\<close>

definition IntervalTree :: "('k::linorder, 'v) bst \<Rightarrow> ('k, 'v, path) interval_tree" where
  "IntervalTree b =
     \<lparr>root = node_at b [],
      tree_successor = (\<lambda>n. Option.bind (successor_path b (handle n)) (node_at b)),
      tree_precursor = (\<lambda>n. Option.bind (precursor_path b (handle n)) (node_at b)),
      tree_search_nearest_forward = (\<lambda>r s.
        case r of
          None \<Rightarrow> None
        | Some n \<Rightarrow>
            Option.bind (nearest_forward_path (subtree b (handle n)) s)
              (\<lambda>p. node_at b (handle n @ p))),
      tree_search_nearest_backward = (\<lambda>r s.
        case r of
          None \<Rightarrow> None
        | Some n \<Rightarrow>
            Option.bind (nearest_backward_path (subtree b (handle n)) s)
              (\<lambda>p. node_at b (handle n @ p))),
      local_minimum = (\<lambda>n. node_at b (handle n @ minimum_path (subtree b (handle n)))),
      local_maximum = (\<lambda>n. node_at b (handle n @ maximum_path (subtree b (handle n))))\<rparr>"

text \<open>
  The node of the \<open>i\<close>-th entry from the left (for \<open>i\<close> below the number of entries).
\<close>

definition nth_node :: "('k, 'v) bst \<Rightarrow> nat \<Rightarrow> ('k, 'v, path) node" where
  "nth_node b i = \<lparr>item = inorder b ! i, handle = inorder_paths b ! i\<rparr>"

section \<open>Vocabulary of the statements\<close>

text \<open>What a call returns when it reaches the node of entry \<open>e\<close> and the mapper is \<open>f\<close>.\<close>

definition mapped :: "('v \<Rightarrow> 'k \<Rightarrow> 'r option) \<Rightarrow> ('k, 'v) item \<Rightarrow> error + 'r option" where
  "mapped f e = Inr (f (value' e) (key e))"

text \<open>
  The node a call is answered with, read off the cursor before the call, as the spec's
  transition table has it: the successor/predecessor of the current node; otherwise the
  tree's nearest node at or after/before the seek target; otherwise the minimum/maximum
  under the root; and none when there is no current node, no seek target and no root.
\<close>

definition node_found ::
  "cursor_op \<Rightarrow> ('k, 'v, 'h, 'r) cursor \<Rightarrow> ('k, 'v, 'h) node option" where
  "node_found x c =
     (case current_node c of
        Some n \<Rightarrow>
          (case x of
             Next \<Rightarrow> tree_successor (tree c) n
           | Prev \<Rightarrow> tree_precursor (tree c) n)
      | None \<Rightarrow>
          (case search_node c of
             Some s \<Rightarrow>
               (case x of
                  Next \<Rightarrow> tree_search_nearest_forward (tree c) (root (tree c)) s
                | Prev \<Rightarrow> tree_search_nearest_backward (tree c) (root (tree c)) s)
           | None \<Rightarrow>
               (case root (tree c) of
                  Some r \<Rightarrow>
                    (case x of
                       Next \<Rightarrow> local_minimum (tree c) r
                     | Prev \<Rightarrow> local_maximum (tree c) r)
                | None \<Rightarrow> None)))"

text \<open>
  What the tree answers to a logged call of one of its methods (the mapper is not a
  method of the tree).
\<close>

fun answer :: "('k, 'v, 'h) interval_tree \<Rightarrow> ('k, 'v, 'h) call \<Rightarrow> ('k, 'v, 'h) node option" where
  "answer t (Call_tree_successor n) = tree_successor t n"
| "answer t (Call_tree_precursor n) = tree_precursor t n"
| "answer t (Call_tree_search_nearest_forward r s) = tree_search_nearest_forward t r s"
| "answer t (Call_tree_search_nearest_backward r s) = tree_search_nearest_backward t r s"
| "answer t (Call_local_minimum n) = local_minimum t n"
| "answer t (Call_local_maximum n) = local_maximum t n"
| "answer t (Call_outputMapperFn v k) = None"

text \<open>
  The spec's words for the two seeded starts: the entry "nearest at or after" a target is
  an entry of the tree whose key is at or after the target and at or before every other
  such key; "nearest at or before" is the mirror.
\<close>

definition nearest_at_or_after :: "('k::linorder, 'v) item list \<Rightarrow> 'k \<Rightarrow> ('k, 'v) item \<Rightarrow> bool" where
  "nearest_at_or_after es s e \<longleftrightarrow>
     e \<in> set es \<and> s \<le> key e \<and> (\<forall>e'\<in>set es. s \<le> key e' \<longrightarrow> key e \<le> key e')"

definition nearest_at_or_before :: "('k::linorder, 'v) item list \<Rightarrow> 'k \<Rightarrow> ('k, 'v) item \<Rightarrow> bool" where
  "nearest_at_or_before es s e \<longleftrightarrow>
     e \<in> set es \<and> key e \<le> s \<and> (\<forall>e'\<in>set es. key e' \<le> s \<longrightarrow> key e' \<le> key e)"

section \<open>Example data\<close>

text \<open>
  Intervals are pairs \<open>(low, high)\<close> compared by \<open>low\<close>, then \<open>high\<close>. The first tree holds
  exactly \<open>[3,3]\<close> and \<open>[7,7]\<close>; the second holds three entries under a root with two
  children.
\<close>

definition entry :: "int \<Rightarrow> int \<Rightarrow> string \<Rightarrow> (int \<times> int, string) item" where
  "entry lo hi v = \<lparr>key = (lo, hi), value' = v\<rparr>"

definition empty_tree :: "(int \<times> int, string) bst" where
  "empty_tree = Nil_node"

definition tree_3_7 :: "(int \<times> int, string) bst" where
  "tree_3_7 = Tree_node Nil_node (entry 3 3 ''three'') (Tree_node Nil_node (entry 7 7 ''seven'') Nil_node)"

definition tree_1_4_9 :: "(int \<times> int, string) bst" where
  "tree_1_4_9 =
     Tree_node (Tree_node Nil_node (entry 1 2 ''a'') Nil_node) (entry 4 6 ''b'')
       (Tree_node Nil_node (entry 9 9 ''c'') Nil_node)"

text \<open>A mapper that returns the pair it was given, and one that always returns \<^verbatim>\<open>null\<close>.\<close>

definition pair_mapper :: "string \<Rightarrow> int \<times> int \<Rightarrow> (string \<times> (int \<times> int)) option" where
  "pair_mapper v k = Some (v, k)"

definition null_mapper :: "string \<Rightarrow> int \<times> int \<Rightarrow> (string \<times> (int \<times> int)) option" where
  "null_mapper v k = None"

text \<open>The two nodes of the first tree, and cursors over it.\<close>

definition node_3 :: "(int \<times> int, string, path) node" where
  "node_3 = \<lparr>item = entry 3 3 ''three'', handle = []\<rparr>"

definition node_7 :: "(int \<times> int, string, path) node" where
  "node_7 = \<lparr>item = entry 7 7 ''seven'', handle = [Right]\<rparr>"

definition fresh_cursor ::
  "(int \<times> int, string, path, string \<times> (int \<times> int)) cursor" where
  "fresh_cursor = Cursor (IntervalTree tree_3_7) None (Some pair_mapper)"

definition seeded_cursor ::
  "(int \<times> int, string, path, string \<times> (int \<times> int)) cursor" where
  "seeded_cursor = Cursor (IntervalTree tree_3_7) (Some (5, 5)) (Some pair_mapper)"

definition null_cursor ::
  "(int \<times> int, string, path, string \<times> (int \<times> int)) cursor" where
  "null_cursor = Cursor (IntervalTree tree_3_7) None (Some null_mapper)"

definition empty_cursor ::
  "(int \<times> int, string, path, string \<times> (int \<times> int)) cursor" where
  "empty_cursor = Cursor (IntervalTree empty_tree) None (Some pair_mapper)"

section \<open>Facts about single calls\<close>

lemma state_deliver_fields:
  "tree (state (deliver found cs c)) = tree c"
  "search_node (state (deliver found cs c)) = search_node c"
  "outputMapperFn (state (deliver found cs c)) = outputMapperFn c"
  "current_node (state (deliver found cs c)) = found"
  by (simp_all add: deliver_def Let_def split: option.splits)

lemma deliver_outcome:
  "outcome (deliver found cs c) =
     (case found of
        None \<Rightarrow> Inr None
      | Some n \<Rightarrow>
          (case outputMapperFn c of
             None \<Rightarrow> Inl TypeError
           | Some f \<Rightarrow> Inr (f (value' (item n)) (key (item n)))))"
  by (simp add: deliver_def Let_def split: option.splits)

lemma deliver_calls:
  "calls (deliver found cs c) =
     (case found of
        None \<Rightarrow> cs
      | Some n \<Rightarrow>
          (case outputMapperFn c of
             None \<Rightarrow> cs
           | Some f \<Rightarrow> cs @ [Call_outputMapperFn (value' (item n)) (key (item n))]))"
  by (simp add: deliver_def Let_def split: option.splits)

lemma mapper_calls_append: "mapper_calls (xs @ ys) = mapper_calls xs @ mapper_calls ys"
  by (induction xs rule: mapper_calls.induct) simp_all

lemma search_node_after_call:
  "search_node (state (cursor_call x c)) =
     (if current_node c = None then None else search_node c)"
  by (cases x)
     (simp_all add: cursor_next_def cursor_prev_def state_deliver_fields split: option.splits)

lemma tree_after_call: "tree (state (cursor_call x c)) = tree c"
  by (cases x)
     (simp_all add: cursor_next_def cursor_prev_def state_deliver_fields split: option.splits)

lemma mapper_after_call: "outputMapperFn (state (cursor_call x c)) = outputMapperFn c"
  by (cases x)
     (simp_all add: cursor_next_def cursor_prev_def state_deliver_fields split: option.splits)

lemma tree_run_state: "tree (run_state xs c) = tree c"
  by (induction xs arbitrary: c) (simp_all add: tree_after_call)

lemma mapper_run_state: "outputMapperFn (run_state xs c) = outputMapperFn c"
  by (induction xs arbitrary: c) (simp_all add: mapper_after_call)

lemma search_node_run_state:
  "search_node c = None \<Longrightarrow> search_node (run_state xs c) = None"
  by (induction xs arbitrary: c) (simp_all add: search_node_after_call)

lemma filter_tree_deliver:
  "filter is_tree_call (calls (deliver found cs c)) = filter is_tree_call cs"
  by (simp add: deliver_calls split: option.splits)

lemma filter_search_deliver:
  "filter is_search_call (calls (deliver found cs c)) = filter is_search_call cs"
  by (simp add: deliver_calls split: option.splits)

lemma mapper_calls_deliver:
  "mapper_calls (calls (deliver found cs c)) =
     mapper_calls cs @
     (case found of
        None \<Rightarrow> []
      | Some n \<Rightarrow>
          (case outputMapperFn c of
             None \<Rightarrow> []
           | Some f \<Rightarrow> [(value' (item n), key (item n))]))"
  by (simp add: deliver_calls mapper_calls_append split: option.splits)

lemma search_calls_of_call:
  "filter is_search_call (calls (cursor_call x c)) =
     (case current_node c of
        Some n \<Rightarrow> []
      | None \<Rightarrow>
          (case search_node c of
             None \<Rightarrow> []
           | Some s \<Rightarrow>
               [case x of
                  Next \<Rightarrow> Call_tree_search_nearest_forward (root (tree c)) s
                | Prev \<Rightarrow> Call_tree_search_nearest_backward (root (tree c)) s]))"
  by (cases x)
     (simp_all add: cursor_next_def cursor_prev_def filter_search_deliver split: option.splits)

lemma no_search_calls_run:
  "search_node c = None \<Longrightarrow>
   filter is_search_call (concat (map calls (run_steps xs c))) = []"
proof (induction xs arbitrary: c)
  case Nil
  then show ?case by simp
next
  case (Cons x xs)
  have "search_node (state (cursor_call x c)) = None"
    using Cons.prems by (simp add: search_node_after_call)
  then show ?case
    using Cons.IH[of "state (cursor_call x c)"] Cons.prems
    by (simp add: search_calls_of_call split: option.splits)
qed

lemma anchored_state:
  "current_node c = Some q \<Longrightarrow>
   state (cursor_call x c) =
     c\<lparr>current_node :=
         (case x of Next \<Rightarrow> tree_successor (tree c) q | Prev \<Rightarrow> tree_precursor (tree c) q)\<rparr>"
  by (cases x)
     (simp_all add: cursor_next_def cursor_prev_def deliver_def Let_def split: option.splits)

lemma outcome_of_call:
  "outcome (cursor_call x c) =
     (case current_node (state (cursor_call x c)) of
        None \<Rightarrow> Inr None
      | Some n \<Rightarrow>
          (case outputMapperFn c of
             None \<Rightarrow> Inl TypeError
           | Some f \<Rightarrow> mapped f (item n)))"
  by (cases x)
     (simp_all add: cursor_next_def cursor_prev_def state_deliver_fields deliver_outcome
        mapped_def split: option.splits)

lemma next_prev_round:
  assumes "outputMapperFn c = Some f"
    and "current_node c = Some m"
    and "tree_successor (tree c) m = Some n"
    and "tree_precursor (tree c) n = Some m"
  shows "run_state (concat (replicate k [Next, Prev])) c = c"
    and "map outcome (run_steps (concat (replicate k [Next, Prev])) c) =
           concat (replicate k [mapped f (item n), mapped f (item m)])"
proof -
  have s1: "state (cursor_call Next c) = c\<lparr>current_node := Some n\<rparr>"
    using anchored_state[OF assms(2), of Next] assms(3) by simp
  have s2: "state (cursor_call Prev (c\<lparr>current_node := Some n\<rparr>)) = c"
    using anchored_state[of "c\<lparr>current_node := Some n\<rparr>" n Prev] assms(2,4)
    by simp
  have o1: "outcome (cursor_call Next c) = mapped f (item n)"
    using outcome_of_call[of Next c] s1 assms(1) by simp
  have o2: "outcome (cursor_call Prev (c\<lparr>current_node := Some n\<rparr>)) = mapped f (item m)"
    using outcome_of_call[of Prev "c\<lparr>current_node := Some n\<rparr>"] s2 assms(1,2) by simp
  show "run_state (concat (replicate k [Next, Prev])) c = c"
    by (induction k) (simp_all add: s1 s2 del: cursor_call.simps)
  show "map outcome (run_steps (concat (replicate k [Next, Prev])) c) =
           concat (replicate k [mapped f (item n), mapped f (item m)])"
    by (induction k) (simp_all add: s1 s2 o1 o2 del: cursor_call.simps)
qed

lemma empty_tree_call:
  assumes "root (tree c) = None"
    and "\<And>s. tree_search_nearest_forward (tree c) None s = None"
    and "\<And>s. tree_search_nearest_backward (tree c) None s = None"
    and "current_node c = None"
  shows "outcome (cursor_call x c) = Inr None"
    and "current_node (state (cursor_call x c)) = None"
    and "mapper_calls (calls (cursor_call x c)) = []"
  using assms
  by (cases x;
      simp add: cursor_next_def cursor_prev_def deliver_outcome state_deliver_fields
        mapper_calls_deliver split: option.splits)+

text \<open>The definitions of the model that a concrete call is evaluated with.\<close>

lemmas cursor_eval =
  cursor_next_def cursor_prev_def deliver_def Cursor_def IntervalTree_def node_at_def Let_def

section \<open>Facts about the tree\<close>

lemma length_inorder_paths: "length (inorder_paths t) = length (inorder t)"
  by (induction t) simp_all

lemma inorder_Nil_iff: "inorder t = [] \<longleftrightarrow> t = Nil_node"
  by (cases t) simp_all

lemma entry_at_simps:
  "entry_at Nil_node p = None"
  "entry_at (Tree_node l x r) [] = Some x"
  "entry_at (Tree_node l x r) (Left # p) = entry_at l p"
  "entry_at (Tree_node l x r) (Right # p) = entry_at r p"
  by (cases p; simp add: entry_at_def)+

lemma node_at_entry_at:
  "node_at t p = map_option (\<lambda>x. \<lparr>item = x, handle = p\<rparr>) (entry_at t p)"
  by (simp add: node_at_def entry_at_def split: bst.splits)

lemma entry_at_inorder:
  "i < length (inorder t) \<Longrightarrow> entry_at t (inorder_paths t ! i) = Some (inorder t ! i)"
proof (induction t arbitrary: i)
  case Nil_node
  then show ?case by simp
next
  case (Tree_node l x r)
  let ?n = "length (inorder l)"
  consider "i < ?n" | "i = ?n" | "?n < i" by linarith
  then show ?case
  proof cases
    case 1
    then show ?thesis
      using Tree_node.IH(1)[of i]
      by (simp add: nth_append length_inorder_paths entry_at_simps)
  next
    case 2
    then show ?thesis
      by (simp add: nth_append length_inorder_paths entry_at_simps)
  next
    case 3
    then have "i - ?n - 1 < length (inorder r)" using Tree_node.prems by simp
    then show ?thesis
      using 3 Tree_node.IH(2)[of "i - ?n - 1"]
      by (simp add: nth_append length_inorder_paths entry_at_simps nth_Cons')
  qed
qed

lemma minimum_path_inorder:
  "t \<noteq> Nil_node \<Longrightarrow> minimum_path t = inorder_paths t ! 0"
proof (induction t rule: minimum_path.induct)
  case (1 ll y lr x r)
  then show ?case by (simp add: nth_append length_inorder_paths)
qed simp_all

lemma maximum_path_inorder:
  "t \<noteq> Nil_node \<Longrightarrow> maximum_path t = inorder_paths t ! (length (inorder t) - 1)"
proof (induction t rule: maximum_path.induct)
  case (1 l x rl y rr)
  then show ?case by (simp add: nth_append length_inorder_paths nth_Cons')
qed (simp_all add: nth_append length_inorder_paths)

lemma successor_path_inorder:
  "i < length (inorder t) \<Longrightarrow>
   successor_path t (inorder_paths t ! i) =
     (if Suc i < length (inorder t) then Some (inorder_paths t ! Suc i) else None)"
proof (induction t arbitrary: i)
  case Nil_node
  then show ?case by simp
next
  case (Tree_node l x r)
  let ?n = "length (inorder l)"
  consider "i < ?n" | "i = ?n" | "?n < i" by linarith
  then show ?case
  proof cases
    case 1
    then show ?thesis
      using Tree_node.IH(1)[of i]
      by (simp add: nth_append length_inorder_paths)
  next
    case 2
    then show ?thesis
      using minimum_path_inorder[of r]
      by (cases r) (simp_all add: nth_append length_inorder_paths del: minimum_path.simps)
  next
    case 3
    then have "i - ?n - 1 < length (inorder r)" using Tree_node.prems by simp
    then show ?thesis
      using 3 Tree_node.IH(2)[of "i - ?n - 1"] Tree_node.prems
      by (auto simp add: nth_append length_inorder_paths nth_Cons' Suc_diff_Suc)
  qed
qed

lemma precursor_path_inorder:
  "i < length (inorder t) \<Longrightarrow>
   precursor_path t (inorder_paths t ! i) =
     (if 0 < i then Some (inorder_paths t ! (i - 1)) else None)"
proof (induction t arbitrary: i)
  case Nil_node
  then show ?case by simp
next
  case (Tree_node l x r)
  let ?n = "length (inorder l)"
  consider "i < ?n" | "i = ?n" | "?n < i" by linarith
  then show ?case
  proof cases
    case 1
    then show ?thesis
      using Tree_node.IH(1)[of i]
      by (auto simp add: nth_append length_inorder_paths)
  next
    case 2
    show ?thesis
    proof (cases "l = Nil_node")
      case True
      then show ?thesis using 2 by simp
    next
      case False
      then have pos: "0 < ?n" by (simp add: inorder_Nil_iff)
      obtain ll y lr where l: "l = Tree_node ll y lr" using False by (cases l) auto
      have "precursor_path (Tree_node l x r) [] = Some (Left # maximum_path l)"
        by (simp add: l del: maximum_path.simps)
      moreover have "inorder_paths (Tree_node l x r) ! i = []"
        using 2 by (simp add: nth_append length_inorder_paths)
      moreover have "inorder_paths (Tree_node l x r) ! (i - 1) = Left # inorder_paths l ! (?n - 1)"
        using 2 pos by (simp add: nth_append length_inorder_paths)
      ultimately show ?thesis
        using 2 pos maximum_path_inorder[OF False] by simp
    qed
  next
    case 3
    then have "i - ?n - 1 < length (inorder r)" using Tree_node.prems by simp
    then show ?thesis
      using 3 Tree_node.IH(2)[of "i - ?n - 1"] Tree_node.prems
      by (auto simp add: nth_append length_inorder_paths nth_Cons')
  qed
qed

lemma node_at_nth:
  "i < length (inorder b) \<Longrightarrow> node_at b (inorder_paths b ! i) = Some (nth_node b i)"
  by (simp add: node_at_entry_at entry_at_inorder nth_node_def)

lemma IntervalTree_successor:
  "i < length (inorder b) \<Longrightarrow>
   tree_successor (IntervalTree b) (nth_node b i) =
     (if Suc i < length (inorder b) then Some (nth_node b (Suc i)) else None)"
  by (simp add: IntervalTree_def successor_path_inorder node_at_nth) (simp add: nth_node_def successor_path_inorder node_at_nth)

lemma IntervalTree_precursor:
  "i < length (inorder b) \<Longrightarrow>
   tree_precursor (IntervalTree b) (nth_node b i) =
     (if 0 < i then Some (nth_node b (i - 1)) else None)"
  by (simp add: IntervalTree_def nth_node_def precursor_path_inorder) (simp add: node_at_nth[unfolded nth_node_def])

lemma IntervalTree_root:
  "root (IntervalTree b) =
     (case b of Nil_node \<Rightarrow> None | Tree_node l x r \<Rightarrow> Some \<lparr>item = x, handle = []\<rparr>)"
  by (simp add: IntervalTree_def node_at_def split: bst.splits)

lemma IntervalTree_local_minimum:
  assumes "root (IntervalTree b) = Some r"
  shows "local_minimum (IntervalTree b) r = Some (nth_node b 0)"
proof -
  have ne: "b \<noteq> Nil_node"
    using assms by (auto simp add: IntervalTree_root)
  then have h: "handle r = []"
    using assms by (auto simp add: IntervalTree_root split: bst.splits)
  have "0 < length (inorder b)" using ne by (simp add: inorder_Nil_iff)
  then have "node_at b (minimum_path b) = Some (nth_node b 0)"
    using minimum_path_inorder[OF ne] node_at_nth[of 0 b] by simp
  then show ?thesis by (simp add: IntervalTree_def h)
qed

lemma IntervalTree_local_maximum:
  assumes "root (IntervalTree b) = Some r"
  shows "local_maximum (IntervalTree b) r = Some (nth_node b (length (inorder b) - 1))"
proof -
  have ne: "b \<noteq> Nil_node"
    using assms by (auto simp add: IntervalTree_root)
  then have h: "handle r = []"
    using assms by (auto simp add: IntervalTree_root split: bst.splits)
  have "0 < length (inorder b)" using ne by (simp add: inorder_Nil_iff)
  then have "node_at b (maximum_path b) = Some (nth_node b (length (inorder b) - 1))"
    using maximum_path_inorder[OF ne] node_at_nth[of "length (inorder b) - 1" b] by simp
  then show ?thesis by (simp add: IntervalTree_def h)
qed


lemma sorted_inorder:
  "search_tree t \<Longrightarrow> sorted_wrt (<) (map key (inorder t))"
proof (induction t)
  case Nil_node
  then show ?case by simp
next
  case (Tree_node l x r)
  then show ?case
    by (fastforce simp add: sorted_wrt_append list_all_iff)
qed

lemma entry_at_in_inorder:
  "entry_at t p = Some e \<Longrightarrow> e \<in> set (inorder t)"
proof (induction t p rule: subtree.induct)
  case (1 t)
  then show ?case by (cases t) (simp_all add: entry_at_simps)
next
  case (2 d p)
  then show ?case by (simp add: entry_at_simps)
next
  case (3 l x r p)
  then show ?case by (simp add: entry_at_simps)
next
  case (4 l x r p)
  then show ?case by (simp add: entry_at_simps)
qed

lemma nearest_forward_path_None:
  "search_tree t \<Longrightarrow> nearest_forward_path t s = None \<Longrightarrow>
   \<forall>e\<in>set (inorder t). key e < s"
  by (induction t) (fastforce simp add: list_all_iff split: if_splits option.splits)+

lemma nearest_forward_path_Some:
  "search_tree t \<Longrightarrow> nearest_forward_path t s = Some p \<Longrightarrow>
   \<exists>e. entry_at t p = Some e \<and> s \<le> key e \<and>
     (\<forall>e'\<in>set (inorder t). s \<le> key e' \<longrightarrow> key e \<le> key e')"
proof (induction t arbitrary: p)
  case Nil_node
  then show ?case by simp
next
  case (Tree_node l x r)
  show ?case
  proof (cases "key x < s")
    case True
    then obtain q where q: "nearest_forward_path r s = Some q" "p = Right # q"
      using Tree_node.prems(2) by (auto split: option.splits)
    then obtain e where e: "entry_at r q = Some e" "s \<le> key e"
      "\<forall>e'\<in>set (inorder r). s \<le> key e' \<longrightarrow> key e \<le> key e'"
      using Tree_node.IH(2)[of q] Tree_node.prems(1) by auto
    have "\<forall>e'\<in>set (inorder l). key e' < s"
      using Tree_node.prems(1) True by (auto simp add: list_all_iff)
    then show ?thesis
      using e q True by (auto simp add: entry_at_simps)
  next
    case False
    show ?thesis
    proof (cases "nearest_forward_path l s")
      case None
      then have p: "p = []" using Tree_node.prems(2) False by simp
      have "\<forall>e'\<in>set (inorder l). key e' < s"
        using nearest_forward_path_None[OF _ None] Tree_node.prems(1) by simp
      moreover have "\<forall>e'\<in>set (inorder r). key x \<le> key e'"
        using Tree_node.prems(1) by (auto simp add: list_all_iff)
      ultimately show ?thesis
        using p False by (auto simp add: entry_at_simps)
    next
      case (Some q)
      then have p: "p = Left # q" using Tree_node.prems(2) False by simp
      obtain e where e: "entry_at l q = Some e" "s \<le> key e"
        "\<forall>e'\<in>set (inorder l). s \<le> key e' \<longrightarrow> key e \<le> key e'"
        using Tree_node.IH(1)[of q] Tree_node.prems(1) Some by auto
      have el: "e \<in> set (inorder l)" using e(1) by (rule entry_at_in_inorder)
      then have ex: "key e < key x"
        using Tree_node.prems(1) by (auto simp add: list_all_iff)
      moreover have "\<forall>e'\<in>set (inorder r). key x < key e'"
        using Tree_node.prems(1) by (auto simp add: list_all_iff)
      ultimately show ?thesis
        using p e by (fastforce simp add: entry_at_simps)
    qed
  qed
qed

lemma nearest_backward_path_None:
  "search_tree t \<Longrightarrow> nearest_backward_path t s = None \<Longrightarrow>
   \<forall>e\<in>set (inorder t). s < key e"
  by (induction t) (fastforce simp add: list_all_iff split: if_splits option.splits)+

lemma nearest_backward_path_Some:
  "search_tree t \<Longrightarrow> nearest_backward_path t s = Some p \<Longrightarrow>
   \<exists>e. entry_at t p = Some e \<and> key e \<le> s \<and>
     (\<forall>e'\<in>set (inorder t). key e' \<le> s \<longrightarrow> key e' \<le> key e)"
proof (induction t arbitrary: p)
  case Nil_node
  then show ?case by simp
next
  case (Tree_node l x r)
  show ?case
  proof (cases "s < key x")
    case True
    then obtain q where q: "nearest_backward_path l s = Some q" "p = Left # q"
      using Tree_node.prems(2) by (auto split: option.splits)
    then obtain e where e: "entry_at l q = Some e" "key e \<le> s"
      "\<forall>e'\<in>set (inorder l). key e' \<le> s \<longrightarrow> key e' \<le> key e"
      using Tree_node.IH(1)[of q] Tree_node.prems(1) by auto
    have "\<forall>e'\<in>set (inorder r). s < key e'"
      using Tree_node.prems(1) True by (auto simp add: list_all_iff)
    then show ?thesis
      using e q True by (auto simp add: entry_at_simps)
  next
    case False
    show ?thesis
    proof (cases "nearest_backward_path r s")
      case None
      then have p: "p = []" using Tree_node.prems(2) False by simp
      have "\<forall>e'\<in>set (inorder r). s < key e'"
        using nearest_backward_path_None[OF _ None] Tree_node.prems(1) by simp
      moreover have "\<forall>e'\<in>set (inorder l). key e' \<le> key x"
        using Tree_node.prems(1) by (auto simp add: list_all_iff)
      ultimately show ?thesis
        using p False by (auto simp add: entry_at_simps)
    next
      case (Some q)
      then have p: "p = Right # q" using Tree_node.prems(2) False by simp
      obtain e where e: "entry_at r q = Some e" "key e \<le> s"
        "\<forall>e'\<in>set (inorder r). key e' \<le> s \<longrightarrow> key e' \<le> key e"
        using Tree_node.IH(2)[of q] Tree_node.prems(1) Some by auto
      have el: "e \<in> set (inorder r)" using e(1) by (rule entry_at_in_inorder)
      then have ex: "key x < key e"
        using Tree_node.prems(1) by (auto simp add: list_all_iff)
      moreover have "\<forall>e'\<in>set (inorder l). key e' < key x"
        using Tree_node.prems(1) by (auto simp add: list_all_iff)
      ultimately show ?thesis
        using p e by (fastforce simp add: entry_at_simps)
    qed
  qed
qed

section \<open>Facts about walks over the tree\<close>

lemma fresh_fields:
  "tree (Cursor t iv f) = t"
  "outputMapperFn (Cursor t iv f) = f"
  "current_node (Cursor t iv f) = None"
  "search_node (Cursor t iv f) = iv"
  by (simp_all add: Cursor_def split: option.splits)

lemma run_replicate_Suc:
  "run_steps (replicate (Suc k) x) c =
     cursor_call x c # run_steps (replicate k x) (state (cursor_call x c))"
  "run_state (replicate (Suc k) x) c = run_state (replicate k x) (state (cursor_call x c))"
  by simp_all

lemma next_at_node:
  assumes "tree c = IntervalTree b"
    and "outputMapperFn c = Some f"
    and "current_node c = Some (nth_node b i)"
    and "i < length (inorder b)"
  shows "state (cursor_next c) =
           c\<lparr>current_node :=
               (if Suc i < length (inorder b) then Some (nth_node b (Suc i)) else None)\<rparr>"
    and "outcome (cursor_next c) =
           (if Suc i < length (inorder b) then mapped f (inorder b ! Suc i) else Inr None)"
proof -
  show st: "state (cursor_next c) =
           c\<lparr>current_node :=
               (if Suc i < length (inorder b) then Some (nth_node b (Suc i)) else None)\<rparr>"
    using anchored_state[OF assms(3), of Next] assms(1,4)
    by (simp add: IntervalTree_successor)
  show "outcome (cursor_next c) =
           (if Suc i < length (inorder b) then mapped f (inorder b ! Suc i) else Inr None)"
    using outcome_of_call[of Next c] st assms(2)
    by (simp add: nth_node_def)
qed

lemma prev_at_node:
  assumes "tree c = IntervalTree b"
    and "outputMapperFn c = Some f"
    and "current_node c = Some (nth_node b i)"
    and "i < length (inorder b)"
  shows "state (cursor_prev c) =
           c\<lparr>current_node := (if 0 < i then Some (nth_node b (i - 1)) else None)\<rparr>"
    and "outcome (cursor_prev c) =
           (if 0 < i then mapped f (inorder b ! (i - 1)) else Inr None)"
proof -
  show st: "state (cursor_prev c) =
           c\<lparr>current_node := (if 0 < i then Some (nth_node b (i - 1)) else None)\<rparr>"
    using anchored_state[OF assms(3), of Prev] assms(1,4)
    by (simp add: IntervalTree_precursor)
  show "outcome (cursor_prev c) =
           (if 0 < i then mapped f (inorder b ! (i - 1)) else Inr None)"
    using outcome_of_call[of Prev c] st assms(2)
    by (simp add: nth_node_def)
qed

lemma run_next_from_node:
  assumes "tree c = IntervalTree b"
    and "outputMapperFn c = Some f"
    and "current_node c = Some (nth_node b i)"
    and "i < length (inorder b)"
    and "k = length (inorder b) - i"
  shows "map outcome (run_steps (replicate k Next) c) =
           map (mapped f) (drop (Suc i) (inorder b)) @ [Inr None] \<and>
         current_node (run_state (replicate k Next) c) = None"
  using assms
proof (induction k arbitrary: i c)
  case 0
  then show ?case by simp
next
  case (Suc k)
  let ?c' = "state (cursor_next c)"
  note st = next_at_node(1)[OF Suc.prems(1-4)]
  note oc = next_at_node(2)[OF Suc.prems(1-4)]
  show ?case
  proof (cases "Suc i < length (inorder b)")
    case True
    have "map outcome (run_steps (replicate k Next) ?c') =
            map (mapped f) (drop (Suc (Suc i)) (inorder b)) @ [Inr None] \<and>
          current_node (run_state (replicate k Next) ?c') = None"
    proof (rule Suc.IH)
      show "tree ?c' = IntervalTree b" using Suc.prems(1) by (simp add: st)
      show "outputMapperFn ?c' = Some f" using Suc.prems(2) by (simp add: st)
      show "current_node ?c' = Some (nth_node b (Suc i))" using True by (simp add: st)
      show "Suc i < length (inorder b)" by (rule True)
      show "k = length (inorder b) - Suc i" using Suc.prems(5) by simp
    qed
    moreover have "drop (Suc i) (inorder b) = inorder b ! Suc i # drop (Suc (Suc i)) (inorder b)"
      using True by (simp add: Cons_nth_drop_Suc)
    ultimately show ?thesis
      using oc True by simp
  next
    case False
    then have k: "k = 0" and d: "drop (Suc i) (inorder b) = []"
      using Suc.prems(4,5) by simp_all
    show ?thesis
      using oc False by (simp add: k d st)
  qed
qed

lemma run_prev_from_node:
  assumes "tree c = IntervalTree b"
    and "outputMapperFn c = Some f"
    and "current_node c = Some (nth_node b i)"
    and "i < length (inorder b)"
  shows "map outcome (run_steps (replicate (Suc i) Prev) c) =
           map (mapped f) (rev (take i (inorder b))) @ [Inr None] \<and>
         current_node (run_state (replicate (Suc i) Prev) c) = None"
  using assms
proof (induction i arbitrary: c)
  case 0
  note st = prev_at_node(1)[OF 0]
  note oc = prev_at_node(2)[OF 0]
  show ?case using oc by (simp add: st)
next
  case (Suc i)
  let ?c' = "state (cursor_prev c)"
  note st = prev_at_node(1)[OF Suc.prems]
  note oc = prev_at_node(2)[OF Suc.prems]
  have "map outcome (run_steps (replicate (Suc i) Prev) ?c') =
          map (mapped f) (rev (take i (inorder b))) @ [Inr None] \<and>
        current_node (run_state (replicate (Suc i) Prev) ?c') = None"
  proof (rule Suc.IH)
    show "tree ?c' = IntervalTree b" using Suc.prems(1) by (simp add: st)
    show "outputMapperFn ?c' = Some f" using Suc.prems(2) by (simp add: st)
    show "current_node ?c' = Some (nth_node b i)" by (simp add: st)
    show "i < length (inorder b)" using Suc.prems(4) by simp
  qed
  moreover have "rev (take (Suc i) (inorder b)) = inorder b ! i # rev (take i (inorder b))"
    using Suc.prems(4) by (simp add: take_Suc_conv_app_nth)
  ultimately show ?case
    using oc by (simp add: run_replicate_Suc del: replicate.simps)
qed

lemma restart_next:
  assumes "tree c = IntervalTree b"
    and "outputMapperFn c = Some f"
    and "current_node c = None"
    and "search_node c = None"
    and "b \<noteq> Nil_node"
  shows "state (cursor_next c) = c\<lparr>current_node := Some (nth_node b 0)\<rparr>"
    and "outcome (cursor_next c) = mapped f (inorder b ! 0)"
proof -
  obtain r where r: "root (IntervalTree b) = Some r"
    using assms(5) by (cases b) (simp_all add: IntervalTree_root)
  have m: "local_minimum (IntervalTree b) r = Some (nth_node b 0)"
    using r by (rule IntervalTree_local_minimum)
  show st: "state (cursor_next c) = c\<lparr>current_node := Some (nth_node b 0)\<rparr>"
    using assms(1,3,4) r m by (simp add: cursor_next_def deliver_def Let_def assms(2))
  show "outcome (cursor_next c) = mapped f (inorder b ! 0)"
    using outcome_of_call[of Next c] st assms(2) by (simp add: nth_node_def)
qed

lemma restart_prev:
  assumes "tree c = IntervalTree b"
    and "outputMapperFn c = Some f"
    and "current_node c = None"
    and "search_node c = None"
    and "b \<noteq> Nil_node"
  shows "state (cursor_prev c) =
           c\<lparr>current_node := Some (nth_node b (length (inorder b) - 1))\<rparr>"
    and "outcome (cursor_prev c) = mapped f (inorder b ! (length (inorder b) - 1))"
proof -
  obtain r where r: "root (IntervalTree b) = Some r"
    using assms(5) by (cases b) (simp_all add: IntervalTree_root)
  have m: "local_maximum (IntervalTree b) r = Some (nth_node b (length (inorder b) - 1))"
    using r by (rule IntervalTree_local_maximum)
  show st: "state (cursor_prev c) =
           c\<lparr>current_node := Some (nth_node b (length (inorder b) - 1))\<rparr>"
    using assms(1,3,4) r m by (simp add: cursor_prev_def deliver_def Let_def assms(2))
  show "outcome (cursor_prev c) = mapped f (inorder b ! (length (inorder b) - 1))"
    using outcome_of_call[of Prev c] st assms(2) by (simp add: nth_node_def)
qed

lemma walk_forward:
  "map outcome
     (run_steps (replicate (Suc (length (inorder b))) Next) (Cursor (IntervalTree b) None (Some f))) =
     map (mapped f) (inorder b) @ [Inr None] \<and>
   current_node
     (run_state (replicate (Suc (length (inorder b))) Next) (Cursor (IntervalTree b) None (Some f))) =
     None"
proof (cases "b = Nil_node")
  case True
  then show ?thesis
    by (simp add: cursor_next_def Cursor_def IntervalTree_root deliver_def)
next
  case False
  let ?c = "Cursor (IntervalTree b) None (Some f)"
  let ?c' = "state (cursor_next ?c)"
  have pos: "0 < length (inorder b)" using False by (simp add: inorder_Nil_iff)
  have st: "?c' = ?c\<lparr>current_node := Some (nth_node b 0)\<rparr>"
    by (rule restart_next(1)[where f = f]) (simp_all add: fresh_fields False)
  have oc: "outcome (cursor_next ?c) = mapped f (inorder b ! 0)"
    by (rule restart_next(2)) (simp_all add: fresh_fields False)
  have rest: "map outcome (run_steps (replicate (length (inorder b)) Next) ?c') =
          map (mapped f) (drop (Suc 0) (inorder b)) @ [Inr None] \<and>
        current_node (run_state (replicate (length (inorder b)) Next) ?c') = None"
  proof (rule run_next_from_node)
    show "tree ?c' = IntervalTree b" by (simp add: st fresh_fields)
    show "outputMapperFn ?c' = Some f" by (simp add: st fresh_fields)
    show "current_node ?c' = Some (nth_node b 0)" by (simp add: st)
    show "0 < length (inorder b)" by (rule pos)
    show "length (inorder b) = length (inorder b) - 0" by simp
  qed
  have split: "inorder b = inorder b ! 0 # drop (Suc 0) (inorder b)"
    using pos by (simp add: Cons_nth_drop_Suc)
  have "map (mapped f) (inorder b) =
          mapped f (inorder b ! 0) # map (mapped f) (drop (Suc 0) (inorder b))"
    by (subst split) simp
  then show ?thesis
    using oc rest by (simp add: run_replicate_Suc del: replicate.simps)
qed

lemma walk_backward:
  "map outcome
     (run_steps (replicate (Suc (length (inorder b))) Prev) (Cursor (IntervalTree b) None (Some f))) =
     map (mapped f) (rev (inorder b)) @ [Inr None] \<and>
   current_node
     (run_state (replicate (Suc (length (inorder b))) Prev) (Cursor (IntervalTree b) None (Some f))) =
     None"
proof (cases "b = Nil_node")
  case True
  then show ?thesis
    by (simp add: cursor_prev_def Cursor_def IntervalTree_root deliver_def)
next
  case False
  let ?c = "Cursor (IntervalTree b) None (Some f)"
  let ?c' = "state (cursor_prev ?c)"
  let ?n = "length (inorder b)"
  have pos: "0 < ?n" using False by (simp add: inorder_Nil_iff)
  have st: "?c' = ?c\<lparr>current_node := Some (nth_node b (?n - 1))\<rparr>"
    by (rule restart_prev(1)[where f = f]) (simp_all add: fresh_fields False)
  have oc: "outcome (cursor_prev ?c) = mapped f (inorder b ! (?n - 1))"
    by (rule restart_prev(2)) (simp_all add: fresh_fields False)
  have eq: "Suc (?n - 1) = ?n" using pos by simp
  have "map outcome (run_steps (replicate (Suc (?n - 1)) Prev) ?c') =
          map (mapped f) (rev (take (?n - 1) (inorder b))) @ [Inr None] \<and>
        current_node (run_state (replicate (Suc (?n - 1)) Prev) ?c') = None"
  proof (rule run_prev_from_node)
    show "tree ?c' = IntervalTree b" by (simp add: st fresh_fields)
    show "outputMapperFn ?c' = Some f" by (simp add: st fresh_fields)
    show "current_node ?c' = Some (nth_node b (?n - 1))" by (simp add: st)
    show "?n - 1 < ?n" using pos by simp
  qed
  then have rest: "map outcome (run_steps (replicate ?n Prev) ?c') =
          map (mapped f) (rev (take (?n - 1) (inorder b))) @ [Inr None] \<and>
        current_node (run_state (replicate ?n Prev) ?c') = None"
    unfolding eq .
  have sp: "inorder b = take (?n - 1) (inorder b) @ [inorder b ! (?n - 1)]"
    using pos take_Suc_conv_app_nth[of "?n - 1" "inorder b"] by simp
  have "rev (inorder b) = rev (take (?n - 1) (inorder b) @ [inorder b ! (?n - 1)])"
    using sp by (rule arg_cong)
  then have r: "rev (inorder b) = inorder b ! (?n - 1) # rev (take (?n - 1) (inorder b))"
    by (simp only: rev_append rev.simps append.simps)
  have "map (mapped f) (rev (inorder b)) =
          mapped f (inorder b ! (?n - 1)) # map (mapped f) (rev (take (?n - 1) (inorder b)))"
    by (simp only: r list.map)
  then show ?thesis
    using oc rest by (simp add: run_replicate_Suc del: replicate.simps)
qed

lemma hd_least:
  "sorted_wrt (<) (map key es) \<Longrightarrow> \<forall>e\<in>set es. key (hd es) \<le> key (e::('k::linorder, 'v) item)"
  by (cases es) auto

lemma last_greatest:
  "sorted_wrt (<) (map key es) \<Longrightarrow> \<forall>e\<in>set es. key (e::('k::linorder, 'v) item) \<le> key (last es)"
proof (induction es rule: rev_induct)
  case Nil
  then show ?case by simp
next
  case (snoc x xs)
  then show ?case by (auto simp add: sorted_wrt_append)
qed

lemma seek_forward:
  assumes "search_tree b"
  shows "case tree_search_nearest_forward (IntervalTree b) (root (IntervalTree b)) s of
           None \<Rightarrow> \<forall>e\<in>set (inorder b). key e < s
         | Some n \<Rightarrow> nearest_at_or_after (inorder b) s (item n)"
proof (cases b)
  case Nil_node
  then show ?thesis by (simp add: IntervalTree_def node_at_def)
next
  case (Tree_node l x r)
  then have r: "root (IntervalTree b) = Some \<lparr>item = x, handle = []\<rparr>"
    by (simp add: IntervalTree_root)
  have eq: "tree_search_nearest_forward (IntervalTree b) (root (IntervalTree b)) s =
      Option.bind (nearest_forward_path b s) (node_at b)"
    unfolding r by (simp add: IntervalTree_def)
  show ?thesis
  proof (cases "nearest_forward_path b s")
    case None
    then show ?thesis
      using nearest_forward_path_None[OF assms None] by (simp add: eq)
  next
    case (Some p)
    obtain e where e: "entry_at b p = Some e" "s \<le> key e"
      "\<forall>e'\<in>set (inorder b). s \<le> key e' \<longrightarrow> key e \<le> key e'"
      using nearest_forward_path_Some[OF assms Some] by auto
    have "e \<in> set (inorder b)" using e(1) by (rule entry_at_in_inorder)
    then show ?thesis
      using e Some by (simp add: eq node_at_entry_at nearest_at_or_after_def)
  qed
qed

lemma seek_backward:
  assumes "search_tree b"
  shows "case tree_search_nearest_backward (IntervalTree b) (root (IntervalTree b)) s of
           None \<Rightarrow> \<forall>e\<in>set (inorder b). s < key e
         | Some n \<Rightarrow> nearest_at_or_before (inorder b) s (item n)"
proof (cases b)
  case Nil_node
  then show ?thesis by (simp add: IntervalTree_def node_at_def)
next
  case (Tree_node l x r)
  then have r: "root (IntervalTree b) = Some \<lparr>item = x, handle = []\<rparr>"
    by (simp add: IntervalTree_root)
  have eq: "tree_search_nearest_backward (IntervalTree b) (root (IntervalTree b)) s =
      Option.bind (nearest_backward_path b s) (node_at b)"
    unfolding r by (simp add: IntervalTree_def)
  show ?thesis
  proof (cases "nearest_backward_path b s")
    case None
    then show ?thesis
      using nearest_backward_path_None[OF assms None] by (simp add: eq)
  next
    case (Some p)
    obtain e where e: "entry_at b p = Some e" "key e \<le> s"
      "\<forall>e'\<in>set (inorder b). key e' \<le> s \<longrightarrow> key e' \<le> key e"
      using nearest_backward_path_Some[OF assms Some] by auto
    have "e \<in> set (inorder b)" using e(1) by (rule entry_at_in_inorder)
    then show ?thesis
      using e Some by (simp add: eq node_at_entry_at nearest_at_or_before_def)
  qed
qed

lemma seeded_first_call:
  "current_node (state (cursor_next (Cursor t (Some s) (Some f)))) =
     tree_search_nearest_forward t (root t) s"
  "current_node (state (cursor_prev (Cursor t (Some s) (Some f)))) =
     tree_search_nearest_backward t (root t) s"
  by (simp_all add: cursor_next_def cursor_prev_def Cursor_def state_deliver_fields)

section \<open>The claims that concern the cursor alone\<close>

text \<open>
  The theorems of this section hold for every tree object: nothing is assumed about what
  the tree's methods answer beyond what a statement says.
\<close>

text \<open>
  C4. A cursor constructed with a seek interval starts with the seek target and no
  position. Its first call, \<^verbatim>\<open>next()\<close> or \<^verbatim>\<open>prev()\<close>, consumes the target; after any
  sequence of at least one call the target is gone, so target and position are never held
  together; the whole sequence makes exactly one seek-based search, the one of its first
  call. A cursor at a real node makes one tree call, successor or predecessor of that
  node, and takes the answer as its position.
\<close>

theorem seek_target_consumed_once:
  "search_node (Cursor t (Some s) f) = Some s \<and>
   current_node (Cursor t (Some s) f) = None \<and>
   search_node (state (cursor_call x (Cursor t (Some s) f))) = None \<and>
   search_node (run_state (x # xs) (Cursor t (Some s) f)) = None \<and>
   filter is_search_call (concat (map calls (run_steps (x # xs) (Cursor t (Some s) f)))) =
     [case x of
        Next \<Rightarrow> Call_tree_search_nearest_forward (root t) s
      | Prev \<Rightarrow> Call_tree_search_nearest_backward (root t) s] \<and>
   (current_node c = Some n \<longrightarrow>
      filter is_tree_call (calls (cursor_next c)) = [Call_tree_successor n] \<and>
      current_node (state (cursor_next c)) = tree_successor (tree c) n \<and>
      filter is_tree_call (calls (cursor_prev c)) = [Call_tree_precursor n] \<and>
      current_node (state (cursor_prev c)) = tree_precursor (tree c) n)"
proof -
  let ?c0 = "Cursor t (Some s) f"
  have c0: "search_node ?c0 = Some s" "current_node ?c0 = None" "tree ?c0 = t"
    by (simp_all add: Cursor_def)
  have first: "search_node (state (cursor_call x ?c0)) = None"
    by (simp add: search_node_after_call c0)
  have later: "search_node (run_state (x # xs) ?c0) = None"
    using first by (simp add: search_node_run_state)
  have "filter is_search_call (concat (map calls (run_steps xs (state (cursor_call x ?c0))))) = []"
    using first by (rule no_search_calls_run)
  then have once:
    "filter is_search_call (concat (map calls (run_steps (x # xs) ?c0))) =
       [case x of
          Next \<Rightarrow> Call_tree_search_nearest_forward (root t) s
        | Prev \<Rightarrow> Call_tree_search_nearest_backward (root t) s]"
    by (simp add: search_calls_of_call c0 split: cursor_op.splits)
  have steps:
    "current_node c = Some n \<longrightarrow>
      filter is_tree_call (calls (cursor_next c)) = [Call_tree_successor n] \<and>
      current_node (state (cursor_next c)) = tree_successor (tree c) n \<and>
      filter is_tree_call (calls (cursor_prev c)) = [Call_tree_precursor n] \<and>
      current_node (state (cursor_prev c)) = tree_precursor (tree c) n"
    by (simp add: cursor_next_def cursor_prev_def filter_tree_deliver state_deliver_fields)
  show ?thesis
    using c0(1,2) first later once steps by blast
qed

theorem seek_target_consumed_once_witness:
  "current_node (state (cursor_prev seeded_cursor)) = Some node_3 \<and>
   search_node (run_state [Prev, Next, Next] seeded_cursor) = None \<and>
   filter is_search_call (concat (map calls (run_steps [Prev, Next, Next] seeded_cursor))) =
     [Call_tree_search_nearest_backward (Some node_3) (5, 5)] \<and>
   filter is_tree_call (calls (cursor_next (state (cursor_prev seeded_cursor)))) =
     [Call_tree_successor node_3] \<and>
   current_node (state (cursor_next (state (cursor_prev seeded_cursor)))) = Some node_7"
proof -
  have anchored: "current_node (state (cursor_prev seeded_cursor)) = Some node_3"
    by (simp add: cursor_eval seeded_cursor_def tree_3_7_def entry_def node_3_def node_7_def pair_mapper_def)
  have r: "root (IntervalTree tree_3_7) = Some node_3"
    by (simp add: cursor_eval seeded_cursor_def tree_3_7_def entry_def node_3_def node_7_def pair_mapper_def)
  have t: "tree (state (cursor_prev seeded_cursor)) = IntervalTree tree_3_7"
    using tree_after_call[of Prev seeded_cursor] by (simp add: seeded_cursor_def Cursor_def)
  have s: "tree_successor (IntervalTree tree_3_7) node_3 = Some node_7"
    by (simp add: cursor_eval seeded_cursor_def tree_3_7_def entry_def node_3_def node_7_def pair_mapper_def)
  show ?thesis
    using seek_target_consumed_once[of "IntervalTree tree_3_7" "(5, 5)" "Some pair_mapper"
        Prev "[Next, Next]" "state (cursor_prev seeded_cursor)" node_3]
      anchored r t s
    by (simp add: seeded_cursor_def)
qed

text \<open>
  C5. On a tree object whose root is none and whose nearest searches, started from a
  root that is none, find nothing, every call of every sequence of \<^verbatim>\<open>next()\<close> and
  \<^verbatim>\<open>prev()\<close> returns \<^verbatim>\<open>null\<close>: no call throws, the mapper (present or not) is never
  called, and the position stays none. This holds with and without a seek interval.
\<close>

theorem empty_tree_always_null:
  assumes "root t = None"
    and "\<And>s. tree_search_nearest_forward t None s = None"
    and "\<And>s. tree_search_nearest_backward t None s = None"
  shows "map outcome (run_steps xs (Cursor t iv f)) = replicate (length xs) (Inr None) \<and>
         mapper_calls (concat (map calls (run_steps xs (Cursor t iv f)))) = [] \<and>
         current_node (run_state xs (Cursor t iv f)) = None"
proof -
  have gen: "tree c = t \<Longrightarrow> current_node c = None \<Longrightarrow>
      map outcome (run_steps xs c) = replicate (length xs) (Inr None) \<and>
      mapper_calls (concat (map calls (run_steps xs c))) = [] \<and>
      current_node (run_state xs c) = None" for c :: "('a, 'b, 'c, 'd) cursor"
  proof (induction xs arbitrary: c)
    case Nil
    then show ?case by simp
  next
    case (Cons x xs)
    have r: "root (tree c) = None" using assms(1) Cons.prems(1) by simp
    have fw: "\<And>s. tree_search_nearest_forward (tree c) None s = None"
      using assms(2) Cons.prems(1) by simp
    have bw: "\<And>s. tree_search_nearest_backward (tree c) None s = None"
      using assms(3) Cons.prems(1) by simp
    note one = empty_tree_call[OF r fw bw Cons.prems(2), of x]
    have "tree (state (cursor_call x c)) = t"
      using Cons.prems(1) by (simp add: tree_after_call)
    then show ?case
      using Cons.IH[of "state (cursor_call x c)"] one
      by (simp add: mapper_calls_append)
  qed
  show ?thesis
    by (rule gen) (simp_all add: Cursor_def)
qed

theorem empty_tree_always_null_witness:
  "root (IntervalTree empty_tree) = None \<and>
   map outcome
     (run_steps [Next, Prev, Prev, Next]
        (Cursor (IntervalTree empty_tree) (Some (5, 5)) (Some pair_mapper))) =
     [Inr None, Inr None, Inr None, Inr None] \<and>
   map outcome (run_steps [Prev, Next, Next] empty_cursor) = [Inr None, Inr None, Inr None]"
proof -
  have r: "root (IntervalTree empty_tree) = None"
    by (simp add: cursor_eval empty_tree_def)
  have fw: "\<And>s. tree_search_nearest_forward (IntervalTree empty_tree) None s = None"
    by (simp add: cursor_eval empty_tree_def)
  have bw: "\<And>s. tree_search_nearest_backward (IntervalTree empty_tree) None s = None"
    by (simp add: cursor_eval empty_tree_def)
  show ?thesis
    using r
      empty_tree_always_null[OF r fw bw, of "[Next, Prev, Prev, Next]" "Some (5, 5)"
        "Some pair_mapper"]
      empty_tree_always_null[OF r fw bw, of "[Prev, Next, Next]" None "Some pair_mapper"]
    by (simp add: empty_cursor_def numeral_eq_Suc)
qed

text \<open>
  C6. A cursor anchored at a node \<open>m\<close> whose successor is \<open>n\<close>: \<^verbatim>\<open>next()\<close> returns the
  mapped entry of \<open>n\<close> and moves there; a \<^verbatim>\<open>prev()\<close> right after it steps from \<open>n\<close>, not
  from \<open>m\<close>: it asks the tree for the predecessor of \<open>n\<close>, returns that node's mapped
  entry (\<^verbatim>\<open>null\<close> when there is none) and moves there. When the predecessor of \<open>n\<close> is \<open>m\<close>
  again, the pair of calls leaves the cursor exactly as it was, and any number of
  alternating \<^verbatim>\<open>next()\<close>/\<^verbatim>\<open>prev()\<close> calls returns the entries of \<open>n\<close> and \<open>m\<close> in turn.
\<close>

theorem interleaved_calls_step_from_current:
  assumes "outputMapperFn c = Some f"
    and "current_node c = Some m"
    and "tree_successor (tree c) m = Some n"
  shows "outcome (cursor_next c) = mapped f (item n) \<and>
         current_node (state (cursor_next c)) = Some n \<and>
         filter is_tree_call (calls (cursor_prev (state (cursor_next c)))) =
           [Call_tree_precursor n] \<and>
         current_node (state (cursor_prev (state (cursor_next c)))) = tree_precursor (tree c) n \<and>
         outcome (cursor_prev (state (cursor_next c))) =
           (case tree_precursor (tree c) n of
              None \<Rightarrow> Inr None
            | Some p \<Rightarrow> mapped f (item p)) \<and>
         (tree_precursor (tree c) n = Some m \<longrightarrow>
            state (cursor_prev (state (cursor_next c))) = c \<and>
            run_state (concat (replicate k [Next, Prev])) c = c \<and>
            map outcome (run_steps (concat (replicate k [Next, Prev])) c) =
              concat (replicate k [mapped f (item n), mapped f (item m)]))"
proof -
  have s1: "state (cursor_next c) = c\<lparr>current_node := Some n\<rparr>"
    using anchored_state[OF assms(2), of Next] assms(3) by simp
  have o1: "outcome (cursor_next c) = mapped f (item n)"
    using outcome_of_call[of Next c] s1 assms(1) by simp
  have c2: "filter is_tree_call (calls (cursor_prev (state (cursor_next c)))) =
           [Call_tree_precursor n]"
    by (simp add: s1 cursor_prev_def filter_tree_deliver)
  have s2: "state (cursor_prev (state (cursor_next c))) =
              c\<lparr>current_node := tree_precursor (tree c) n\<rparr>"
    using anchored_state[of "c\<lparr>current_node := Some n\<rparr>" n Prev] s1 by simp
  have o2: "outcome (cursor_prev (state (cursor_next c))) =
           (case tree_precursor (tree c) n of
              None \<Rightarrow> Inr None
            | Some p \<Rightarrow> mapped f (item p))"
    using outcome_of_call[of Prev "state (cursor_next c)"] s2 assms(1)
    by (simp add: s1 split: option.splits)
  have ret: "tree_precursor (tree c) n = Some m \<longrightarrow>
      state (cursor_prev (state (cursor_next c))) = c"
    using s2 assms(2) by simp
  show ?thesis
    using s1 o1 c2 s2 o2 ret next_prev_round[OF assms] by simp
qed

theorem interleaved_calls_step_from_current_witness:
  "current_node (state (cursor_next fresh_cursor)) = Some node_3 \<and>
   tree_successor (IntervalTree tree_3_7) node_3 = Some node_7 \<and>
   tree_precursor (IntervalTree tree_3_7) node_7 = Some node_3 \<and>
   outcome (cursor_next (state (cursor_next fresh_cursor))) = Inr (Some (''seven'', (7, 7))) \<and>
   outcome (cursor_prev (state (cursor_next (state (cursor_next fresh_cursor))))) =
     Inr (Some (''three'', (3, 3))) \<and>
   map outcome (run_steps [Next, Prev, Next, Prev] (state (cursor_next fresh_cursor))) =
     [Inr (Some (''seven'', (7, 7))), Inr (Some (''three'', (3, 3))),
      Inr (Some (''seven'', (7, 7))), Inr (Some (''three'', (3, 3)))]"
proof -
  let ?c = "state (cursor_next fresh_cursor)"
  have st: "?c = fresh_cursor\<lparr>current_node := Some node_3\<rparr>"
    by (simp add: cursor_eval fresh_cursor_def tree_3_7_def entry_def node_3_def node_7_def pair_mapper_def)
  have f: "outputMapperFn ?c = Some pair_mapper"
    by (simp add: st) (simp add: fresh_cursor_def Cursor_def)
  have t: "tree ?c = IntervalTree tree_3_7"
    by (simp add: st) (simp add: fresh_cursor_def Cursor_def)
  have m: "current_node ?c = Some node_3"
    by (simp add: st)
  have sc: "tree_successor (IntervalTree tree_3_7) node_3 = Some node_7"
    by (simp add: cursor_eval fresh_cursor_def tree_3_7_def entry_def node_3_def node_7_def pair_mapper_def)
  have pc: "tree_precursor (IntervalTree tree_3_7) node_7 = Some node_3"
    by (simp add: cursor_eval fresh_cursor_def tree_3_7_def entry_def node_3_def node_7_def pair_mapper_def)
  have sc': "tree_successor (tree ?c) node_3 = Some node_7"
    using sc t by simp
  have two: "concat (replicate 2 [Next, Prev]) = [Next, Prev, Next, Prev]"
    by (simp add: numeral_2_eq_2)
  show ?thesis
    using interleaved_calls_step_from_current[OF f m sc', of 2] m sc pc t two
    by (simp add: mapped_def pair_mapper_def node_3_def node_7_def entry_def numeral_2_eq_2)
qed

text \<open>
  C7. With a mapper \<open>f\<close>: when the tree answers a call of \<^verbatim>\<open>next()\<close> or \<^verbatim>\<open>prev()\<close> with
  a node, the call calls \<open>f\<close> exactly once, with the value and the key of that node's
  entry, returns what \<open>f\<close> returned, and leaves the cursor at that node; when the tree
  answers with no node (or is not asked), the call does not call \<open>f\<close>, returns \<^verbatim>\<open>null\<close>
  and leaves the position at none.
\<close>

theorem mapper_called_once_per_node:
  assumes "outputMapperFn c = Some f"
  shows "case node_found x c of
           Some n \<Rightarrow>
             mapper_calls (calls (cursor_call x c)) = [(value' (item n), key (item n))] \<and>
             outcome (cursor_call x c) = Inr (f (value' (item n)) (key (item n))) \<and>
             current_node (state (cursor_call x c)) = Some n
         | None \<Rightarrow>
             mapper_calls (calls (cursor_call x c)) = [] \<and>
             outcome (cursor_call x c) = Inr None \<and>
             current_node (state (cursor_call x c)) = None"
  using assms
  by (cases x)
     (simp_all add: node_found_def cursor_next_def cursor_prev_def state_deliver_fields
        deliver_outcome mapper_calls_deliver split: option.splits)

theorem mapper_called_once_per_node_witness:
  "outputMapperFn fresh_cursor = Some pair_mapper \<and>
   node_found Next fresh_cursor = Some node_3 \<and>
   mapper_calls (calls (cursor_call Next fresh_cursor)) = [(''three'', (3, 3))] \<and>
   outcome (cursor_call Next fresh_cursor) = Inr (Some (''three'', (3, 3))) \<and>
   node_found Prev (fresh_cursor\<lparr>current_node := Some node_7\<rparr>) = Some node_3 \<and>
   mapper_calls (calls (cursor_call Prev (fresh_cursor\<lparr>current_node := Some node_7\<rparr>))) =
     [(''three'', (3, 3))] \<and>
   outcome (cursor_call Prev (fresh_cursor\<lparr>current_node := Some node_7\<rparr>)) =
     Inr (Some (''three'', (3, 3))) \<and>
   node_found Prev (fresh_cursor\<lparr>current_node := Some node_3\<rparr>) = None \<and>
   mapper_calls (calls (cursor_call Prev (fresh_cursor\<lparr>current_node := Some node_3\<rparr>))) = [] \<and>
   outcome (cursor_call Prev (fresh_cursor\<lparr>current_node := Some node_3\<rparr>)) = Inr None"
proof -
  let ?c7 = "fresh_cursor\<lparr>current_node := Some node_7\<rparr>"
  let ?c3 = "fresh_cursor\<lparr>current_node := Some node_3\<rparr>"
  have f: "outputMapperFn fresh_cursor = Some pair_mapper"
    by (simp add: fresh_cursor_def Cursor_def)
  have f7: "outputMapperFn ?c7 = Some pair_mapper"
    by (simp add: fresh_cursor_def Cursor_def)
  have f3: "outputMapperFn ?c3 = Some pair_mapper"
    by (simp add: fresh_cursor_def Cursor_def)
  have n: "node_found Next fresh_cursor = Some node_3"
    by (simp add: node_found_def cursor_eval fresh_cursor_def tree_3_7_def entry_def node_3_def)
  have p7: "node_found Prev ?c7 = Some node_3"
    by (simp add: node_found_def cursor_eval fresh_cursor_def tree_3_7_def entry_def node_3_def
        node_7_def)
  have p3: "node_found Prev ?c3 = None"
    by (simp add: node_found_def cursor_eval fresh_cursor_def tree_3_7_def entry_def node_3_def)
  have i3: "value' (item node_3) = ''three''" "key (item node_3) = (3, 3)"
    by (simp_all add: node_3_def entry_def)
  show ?thesis
    using mapper_called_once_per_node[OF f, of Next]
      mapper_called_once_per_node[OF f7, of Prev]
      mapper_called_once_per_node[OF f3, of Prev]
      f n p7 p3
    by (simp add: i3 pair_mapper_def)
qed

text \<open>
  C8. A call changes nothing but the cursor's own position and, once, its seek target:
  the tree the cursor refers to is the same tree object after every call and after every
  sequence of calls, and so is the mapper; the seek target is either left alone (the
  cursor was at a node) or dropped. The cursor assigns to its own two fields only; of the
  tree it reads the root and calls the six query methods, each of which answers a node
  or none.
\<close>

theorem cursor_leaves_tree_unchanged:
  "tree (state (cursor_call x c)) = tree c \<and>
   outputMapperFn (state (cursor_call x c)) = outputMapperFn c \<and>
   search_node (state (cursor_call x c)) =
     (if current_node c = None then None else search_node c) \<and>
   tree (run_state xs c) = tree c \<and>
   outputMapperFn (run_state xs c) = outputMapperFn c"
  by (simp only: tree_after_call mapper_after_call search_node_after_call tree_run_state
      mapper_run_state simp_thms)

text \<open>
  C9, as amended. Every call delegates to at most one tree primitive, chosen by the
  state: successor/predecessor of the current node; else the nearest search for the seek
  target; else minimum/maximum of the root; and none at all when there is no current
  node, no seek target and no root. The answer of that primitive (none when nothing was
  asked) becomes the current position, the seek target is dropped unless the cursor was
  at a node, and the call returns the mapped entry of the node found, or \<^verbatim>\<open>null\<close> when
  there is none.
\<close>

theorem one_call_delegates_at_most_once:
  "filter is_tree_call (calls (cursor_call x c)) =
     (case current_node c of
        Some n \<Rightarrow> [case x of Next \<Rightarrow> Call_tree_successor n | Prev \<Rightarrow> Call_tree_precursor n]
      | None \<Rightarrow>
          (case search_node c of
             Some s \<Rightarrow>
               [case x of
                  Next \<Rightarrow> Call_tree_search_nearest_forward (root (tree c)) s
                | Prev \<Rightarrow> Call_tree_search_nearest_backward (root (tree c)) s]
           | None \<Rightarrow>
               (case root (tree c) of
                  Some r \<Rightarrow> [case x of Next \<Rightarrow> Call_local_minimum r | Prev \<Rightarrow> Call_local_maximum r]
                | None \<Rightarrow> []))) \<and>
   length (filter is_tree_call (calls (cursor_call x c))) \<le> 1 \<and>
   current_node (state (cursor_call x c)) =
     (case filter is_tree_call (calls (cursor_call x c)) of
        [] \<Rightarrow> None
      | q # qs \<Rightarrow> answer (tree c) q) \<and>
   search_node (state (cursor_call x c)) =
     (if current_node c = None then None else search_node c) \<and>
   outcome (cursor_call x c) =
     (case current_node (state (cursor_call x c)) of
        None \<Rightarrow> Inr None
      | Some n \<Rightarrow>
          (case outputMapperFn c of
             None \<Rightarrow> Inl TypeError
           | Some f \<Rightarrow> Inr (f (value' (item n)) (key (item n)))))"
  by (cases x)
     (simp_all add: cursor_next_def cursor_prev_def state_deliver_fields deliver_outcome
        filter_tree_deliver split: option.splits)

text \<open>
  C9 as stated fails on an empty tree: a fresh cursor without a seek interval calls no
  tree primitive at all.
\<close>

theorem one_call_delegates_counterexample:
  "length (filter is_tree_call (calls (cursor_next empty_cursor))) \<noteq> 1"
  by (simp add: cursor_eval empty_cursor_def empty_tree_def)

text \<open>
  C10, as amended. A call that leaves the position at none returns \<^verbatim>\<open>null\<close>, and a call
  that returns a value other than \<^verbatim>\<open>null\<close> leaves the cursor at a real node. With a
  mapper that never returns \<^verbatim>\<open>null\<close>, the call returns \<^verbatim>\<open>null\<close> exactly when the position
  afterwards is none.
\<close>

theorem null_result_and_position:
  "(current_node (state (cursor_call x c)) = None \<longrightarrow> outcome (cursor_call x c) = Inr None) \<and>
   (outcome (cursor_call x c) = Inr (Some y) \<longrightarrow> current_node (state (cursor_call x c)) \<noteq> None) \<and>
   (outputMapperFn c = Some f \<and> (\<forall>v k. f v k \<noteq> None) \<longrightarrow>
      (outcome (cursor_call x c) = Inr None \<longleftrightarrow> current_node (state (cursor_call x c)) = None))"
  by (cases x)
     (auto simp add: cursor_next_def cursor_prev_def state_deliver_fields deliver_outcome
        split: option.splits)

theorem null_result_and_position_witness:
  "outputMapperFn fresh_cursor = Some pair_mapper \<and>
   (\<forall>v k. pair_mapper v k \<noteq> None) \<and>
   outcome (cursor_call Next fresh_cursor) = Inr (Some (''three'', (3, 3))) \<and>
   current_node (state (cursor_call Next fresh_cursor)) \<noteq> None \<and>
   outcome (cursor_call Next fresh_cursor) \<noteq> Inr None"
proof -
  have f: "outputMapperFn fresh_cursor = Some pair_mapper"
    by (simp add: fresh_cursor_def Cursor_def)
  have nn: "\<forall>v k. pair_mapper v k \<noteq> None"
    by (simp add: pair_mapper_def)
  have o: "outcome (cursor_call Next fresh_cursor) = Inr (Some (''three'', (3, 3)))"
    by (simp add: cursor_eval fresh_cursor_def tree_3_7_def entry_def pair_mapper_def)
  show ?thesis
    using null_result_and_position[of Next fresh_cursor "(''three'', (3, 3))" pair_mapper] f nn o
    by simp
qed

text \<open>
  C10 as stated fails for a mapper that returns \<^verbatim>\<open>null\<close>: the call returns \<^verbatim>\<open>null\<close> and
  the cursor is anchored at a real node.
\<close>

theorem null_result_counterexample:
  "outcome (cursor_next null_cursor) = Inr None \<and>
   current_node (state (cursor_next null_cursor)) = Some node_3"
  by (simp add: cursor_eval null_cursor_def null_mapper_def tree_3_7_def entry_def node_3_def)

section \<open>The claims that concern the cursor on the tree of the spec\<close>

text \<open>
  C1. Over a search tree with \<open>n\<close> entries, a cursor constructed without an interval
  returns, in its first \<open>n\<close> calls of \<^verbatim>\<open>next()\<close>, the mapped entries of the tree from left
  to right, whose keys are strictly ascending, and \<^verbatim>\<open>null\<close> in call \<open>n + 1\<close>. With
  \<^verbatim>\<open>prev()\<close> it returns the mapped entries from right to left, whose keys are strictly
  descending, and \<^verbatim>\<open>null\<close> in call \<open>n + 1\<close>.
\<close>

theorem cursor_walks_entries_in_order:
  assumes "search_tree b"
  shows "map outcome
           (run_steps (replicate (Suc (length (inorder b))) Next)
              (Cursor (IntervalTree b) None (Some f))) =
           map (mapped f) (inorder b) @ [Inr None] \<and>
         sorted_wrt (<) (map key (inorder b)) \<and>
         map outcome
           (run_steps (replicate (Suc (length (inorder b))) Prev)
              (Cursor (IntervalTree b) None (Some f))) =
           map (mapped f) (rev (inorder b)) @ [Inr None] \<and>
         sorted_wrt (>) (map key (rev (inorder b)))"
proof -
  have up: "sorted_wrt (<) (map key (inorder b))"
    using assms by (rule sorted_inorder)
  then have down: "sorted_wrt (>) (map key (rev (inorder b)))"
    by (simp add: rev_map[symmetric] sorted_wrt_rev)
  show ?thesis
    using walk_forward[of b f] walk_backward[of b f] up down by simp
qed

theorem cursor_walks_entries_in_order_witness:
  "search_tree tree_1_4_9 \<and>
   map outcome
     (run_steps [Next, Next, Next, Next] (Cursor (IntervalTree tree_1_4_9) None (Some pair_mapper))) =
     [Inr (Some (''a'', (1, 2))), Inr (Some (''b'', (4, 6))), Inr (Some (''c'', (9, 9))), Inr None] \<and>
   map outcome
     (run_steps [Prev, Prev, Prev, Prev] (Cursor (IntervalTree tree_1_4_9) None (Some pair_mapper))) =
     [Inr (Some (''c'', (9, 9))), Inr (Some (''b'', (4, 6))), Inr (Some (''a'', (1, 2))), Inr None]"
proof -
  have st: "search_tree tree_1_4_9"
    by (simp add: tree_1_4_9_def entry_def)
  have io: "inorder tree_1_4_9 = [entry 1 2 ''a'', entry 4 6 ''b'', entry 9 9 ''c'']"
    by (simp add: tree_1_4_9_def)
  have four: "replicate (Suc (length (inorder tree_1_4_9))) x = [x, x, x, x]" for x :: cursor_op
    by (simp add: io)
  show ?thesis
    using cursor_walks_entries_in_order[OF st, of pair_mapper] st
    by (simp only: four) (simp add: io mapped_def entry_def pair_mapper_def)
qed

text \<open>
  C2. Over a non-empty search tree, take a cursor that has been called at least once and
  whose position is none after the last call. Its following \<^verbatim>\<open>next()\<close> returns the mapped
  entry with the least key and anchors the cursor there; its following \<^verbatim>\<open>prev()\<close> returns
  the mapped entry with the greatest key and anchors the cursor there. A fresh cursor
  driven past the end by \<open>n + 1\<close> calls of \<^verbatim>\<open>next()\<close> (or of \<^verbatim>\<open>prev()\<close>) is such a cursor.
\<close>

theorem exhausted_cursor_restarts:
  assumes "search_tree b"
    and "b \<noteq> Nil_node"
    and "xs \<noteq> []"
    and "current_node (run_state xs (Cursor (IntervalTree b) iv (Some f))) = None"
  shows "outcome (cursor_next (run_state xs (Cursor (IntervalTree b) iv (Some f)))) =
           mapped f (hd (inorder b)) \<and>
         map_option item
           (current_node (state (cursor_next (run_state xs (Cursor (IntervalTree b) iv (Some f)))))) =
           Some (hd (inorder b)) \<and>
         (\<forall>e\<in>set (inorder b). key (hd (inorder b)) \<le> key e) \<and>
         outcome (cursor_prev (run_state xs (Cursor (IntervalTree b) iv (Some f)))) =
           mapped f (last (inorder b)) \<and>
         map_option item
           (current_node (state (cursor_prev (run_state xs (Cursor (IntervalTree b) iv (Some f)))))) =
           Some (last (inorder b)) \<and>
         (\<forall>e\<in>set (inorder b). key e \<le> key (last (inorder b))) \<and>
         current_node
           (run_state (replicate (Suc (length (inorder b))) Next)
              (Cursor (IntervalTree b) None (Some f))) = None \<and>
         current_node
           (run_state (replicate (Suc (length (inorder b))) Prev)
              (Cursor (IntervalTree b) None (Some f))) = None"
proof -
  let ?c = "run_state xs (Cursor (IntervalTree b) iv (Some f))"
  obtain y ys where xs: "xs = y # ys" using assms(3) by (cases xs) auto
  have t: "tree ?c = IntervalTree b"
    by (simp add: tree_run_state fresh_fields)
  have m: "outputMapperFn ?c = Some f"
    by (simp add: mapper_run_state fresh_fields)
  have "search_node (state (cursor_call y (Cursor (IntervalTree b) iv (Some f)))) = None"
    by (simp add: search_node_after_call fresh_fields)
  then have sn: "search_node ?c = None"
    by (simp add: xs search_node_run_state)
  have ne: "inorder b \<noteq> []" using assms(2) by (simp add: inorder_Nil_iff)
  have h: "inorder b ! 0 = hd (inorder b)"
    using ne by (simp add: hd_conv_nth)
  have l: "inorder b ! (length (inorder b) - 1) = last (inorder b)"
    using ne by (simp add: last_conv_nth)
  note n1 = restart_next[OF t m assms(4) sn assms(2)]
  note p1 = restart_prev[OF t m assms(4) sn assms(2)]
  have a: "outcome (cursor_next ?c) = mapped f (hd (inorder b))"
    using n1(2) h by simp
  have b: "map_option item (current_node (state (cursor_next ?c))) = Some (hd (inorder b))"
    using h by (simp add: n1(1) nth_node_def)
  have c: "outcome (cursor_prev ?c) = mapped f (last (inorder b))"
    using p1(2) l by simp
  have d: "map_option item (current_node (state (cursor_prev ?c))) = Some (last (inorder b))"
    using l by (simp add: p1(1) nth_node_def)
  have up: "sorted_wrt (<) (map key (inorder b))"
    using assms(1) by (rule sorted_inorder)
  show ?thesis
    using a b c d hd_least[OF up] last_greatest[OF up] walk_forward[of b f] walk_backward[of b f]
    by blast
qed

theorem exhausted_cursor_restarts_witness:
  "search_tree tree_3_7 \<and> tree_3_7 \<noteq> Nil_node \<and>
   map outcome (run_steps [Next, Next, Next] fresh_cursor) =
     [Inr (Some (''three'', (3, 3))), Inr (Some (''seven'', (7, 7))), Inr None] \<and>
   current_node (run_state [Next, Next, Next] fresh_cursor) = None \<and>
   outcome (cursor_next (run_state [Next, Next, Next] fresh_cursor)) =
     Inr (Some (''three'', (3, 3))) \<and>
   outcome (cursor_prev (run_state [Next, Next, Next] fresh_cursor)) =
     Inr (Some (''seven'', (7, 7)))"
proof -
  have st: "search_tree tree_3_7"
    by (simp add: tree_3_7_def entry_def)
  have ne: "tree_3_7 \<noteq> Nil_node"
    by (simp add: tree_3_7_def)
  have xs: "[Next, Next, Next] \<noteq> []"
    by simp
  have oc: "map outcome (run_steps [Next, Next, Next] fresh_cursor) =
     [Inr (Some (''three'', (3, 3))), Inr (Some (''seven'', (7, 7))), Inr None]"
    by (simp add: cursor_eval fresh_cursor_def tree_3_7_def entry_def pair_mapper_def)
  have cn: "current_node (run_state [Next, Next, Next]
      (Cursor (IntervalTree tree_3_7) None (Some pair_mapper))) = None"
    by (simp add: cursor_eval fresh_cursor_def tree_3_7_def entry_def pair_mapper_def)
  have io: "inorder tree_3_7 = [entry 3 3 ''three'', entry 7 7 ''seven'']"
    by (simp add: tree_3_7_def)
  show ?thesis
    using exhausted_cursor_restarts[OF st ne xs cn] st ne oc cn
    by (simp add: fresh_cursor_def io mapped_def entry_def pair_mapper_def)
qed

text \<open>
  C3. Over a search tree, the first \<^verbatim>\<open>next()\<close> of a cursor seeded with a target interval
  reaches the entry nearest at or after the target (the entry with the least key that is
  not below the target) and returns it mapped; when every key is below the target it
  reaches nothing and returns \<^verbatim>\<open>null\<close>. The first \<^verbatim>\<open>prev()\<close> reaches the entry nearest at
  or before the target, and nothing when every key is above the target. Seeded with
  \<open>[5,5]\<close> over the tree of \<open>[3,3]\<close> and \<open>[7,7]\<close>, the first \<^verbatim>\<open>next()\<close> returns the \<open>[7,7]\<close>
  entry and the first \<^verbatim>\<open>prev()\<close> the \<open>[3,3]\<close> entry.
\<close>

theorem seeded_cursor_starts_nearest:
  assumes "search_tree b"
  shows "(case current_node (state (cursor_next (Cursor (IntervalTree b) (Some s) (Some f)))) of
            None \<Rightarrow>
              (\<forall>e\<in>set (inorder b). key e < s) \<and>
              outcome (cursor_next (Cursor (IntervalTree b) (Some s) (Some f))) = Inr None
          | Some n \<Rightarrow>
              nearest_at_or_after (inorder b) s (item n) \<and>
              outcome (cursor_next (Cursor (IntervalTree b) (Some s) (Some f))) =
                mapped f (item n)) \<and>
         (case current_node (state (cursor_prev (Cursor (IntervalTree b) (Some s) (Some f)))) of
            None \<Rightarrow>
              (\<forall>e\<in>set (inorder b). s < key e) \<and>
              outcome (cursor_prev (Cursor (IntervalTree b) (Some s) (Some f))) = Inr None
          | Some n \<Rightarrow>
              nearest_at_or_before (inorder b) s (item n) \<and>
              outcome (cursor_prev (Cursor (IntervalTree b) (Some s) (Some f))) =
                mapped f (item n))"
proof -
  let ?c = "Cursor (IntervalTree b) (Some s) (Some f)"
  have fw: "case current_node (state (cursor_next ?c)) of
            None \<Rightarrow>
              (\<forall>e\<in>set (inorder b). key e < s) \<and> outcome (cursor_next ?c) = Inr None
          | Some n \<Rightarrow>
              nearest_at_or_after (inorder b) s (item n) \<and>
              outcome (cursor_next ?c) = mapped f (item n)"
    using seek_forward[OF assms, of s] outcome_of_call[of Next ?c]
    by (simp add: seeded_first_call fresh_fields split: option.splits)
  have bw: "case current_node (state (cursor_prev ?c)) of
            None \<Rightarrow>
              (\<forall>e\<in>set (inorder b). s < key e) \<and> outcome (cursor_prev ?c) = Inr None
          | Some n \<Rightarrow>
              nearest_at_or_before (inorder b) s (item n) \<and>
              outcome (cursor_prev ?c) = mapped f (item n)"
    using seek_backward[OF assms, of s] outcome_of_call[of Prev ?c]
    by (simp add: seeded_first_call fresh_fields split: option.splits)
  show ?thesis
    using fw bw by (rule conjI)
qed

theorem seeded_cursor_starts_nearest_witness:
  "search_tree tree_3_7 \<and>
   inorder tree_3_7 = [entry 3 3 ''three'', entry 7 7 ''seven''] \<and>
   current_node (state (cursor_next seeded_cursor)) = Some node_7 \<and>
   nearest_at_or_after (inorder tree_3_7) (5, 5) (entry 7 7 ''seven'') \<and>
   outcome (cursor_next seeded_cursor) = Inr (Some (''seven'', (7, 7))) \<and>
   current_node (state (cursor_prev seeded_cursor)) = Some node_3 \<and>
   nearest_at_or_before (inorder tree_3_7) (5, 5) (entry 3 3 ''three'') \<and>
   outcome (cursor_prev seeded_cursor) = Inr (Some (''three'', (3, 3)))"
proof -
  have st: "search_tree tree_3_7"
    by (simp add: tree_3_7_def entry_def)
  have io: "inorder tree_3_7 = [entry 3 3 ''three'', entry 7 7 ''seven'']"
    by (simp add: tree_3_7_def)
  have n: "current_node (state (cursor_next seeded_cursor)) = Some node_7"
    by (simp add: cursor_eval seeded_cursor_def tree_3_7_def entry_def node_3_def node_7_def pair_mapper_def)
  have p: "current_node (state (cursor_prev seeded_cursor)) = Some node_3"
    by (simp add: cursor_eval seeded_cursor_def tree_3_7_def entry_def node_3_def node_7_def pair_mapper_def)
  have i7: "item node_7 = entry 7 7 ''seven''" and i3: "item node_3 = entry 3 3 ''three''"
    by (simp_all add: node_7_def node_3_def)
  have m7: "mapped pair_mapper (entry 7 7 ''seven'') = Inr (Some (''seven'', (7, 7)))"
    and m3: "mapped pair_mapper (entry 3 3 ''three'') = Inr (Some (''three'', (3, 3)))"
    by (simp_all add: mapped_def pair_mapper_def entry_def)
  show ?thesis
    using seeded_cursor_starts_nearest[OF st, of "(5, 5)" pair_mapper] st io n p
    by (simp add: seeded_cursor_def[symmetric] i7 i3 m7 m3)
qed

end
